theory Spec2Isabelle
  imports Complex_Main
begin

section \<open>Data model\<close>

text \<open>
  The repository holds four successive prototypes of one React component \<open>App\<close>:
  the stem player on \<open>Tone.Players\<close> (suffix \<open>_v3\<close> below, the third text of
  \<open>App.tsx\<close>), two players with an explicit "Apply Tempo/Pitch" button (the first
  two texts of \<open>App.tsx\<close>; suffix \<open>_v1\<close>, the two differ only in how stems are
  fetched) and the latest one (the text that follows the declarations in
  \<open>soundtouchjs.d.ts\<close>; no suffix), which has the per-song base tempo, the
  dirty check and the play/stop toggle.

  JavaScript numbers are idealised as reals (rounding is not modelled); the one place
  where HOL's total division differs from JavaScript's, a zero divisor, is written out.

  A handler is a function from the state it finds to the state it leaves. While
  \<open>loadBuffers\<close> or \<open>processAllTracks\<close> awaits, the component shows "Loading" or
  "Processing" and offers no control, so each of the two is one function. What a
  handler reads from the variables of its own render (its closure) is passed
  separately from the current state wherever the two can differ. \<open>handlePlay\<close> is
  the case in point: its guard reads the render's \<open>isPlaying\<close>, it then awaits
  \<open>Tone.start()\<close> with the Play button still enabled, and only after its loop does
  it set \<open>isPlaying\<close>. Since the guard reads the render only and the loop the
  current state only, two start requests served by one render \<open>c\<close> are
  \<open>handlePlay c (handlePlay c s)\<close>. A rejected promise ends the handler where it
  stands: the result is \<open>Inl\<close> with the error and the state left behind.
\<close>

datatype TrackName = bass | drums | other | vocals

record Song =
  title :: string
  artist :: string
  songKey :: string
  tempo :: real

text \<open>The Web Audio \<open>AudioBuffer\<close>: \<open>length_frames\<close> is its \<open>length\<close> property.\<close>

record AudioBuffer =
  numberOfChannels :: nat
  length_frames :: nat
  sampleRate :: nat
  channelData :: "real list list"

record TrackState =
  buffer :: "AudioBuffer option"
  processedBuffer :: "AudioBuffer option"
  muted :: bool

text \<open>A quotient of two numbers: finite, or one of \<open>Infinity\<close>, \<open>-Infinity\<close>, \<open>NaN\<close>.\<close>

datatype jsnum = Num real | NotFinite

definition jsDiv :: "real \<Rightarrow> real \<Rightarrow> jsnum" where
  "jsDiv a b = (if b = 0 then NotFinite else Num (a / b))"

datatype error = FetchError | DecodeError | RenderError

text \<open>
  An \<open>AudioBufferSourceNode\<close> that has been started. \<open>toDestination\<close> tells whether it
  was connected to \<open>audioCtx.destination\<close> (otherwise to a fresh, unconnected gain
  node); \<open>srcTrack\<close> remembers the stem it was created for.
\<close>

record SourceNode =
  nodeId :: nat
  srcTrack :: TrackName
  srcBuffer :: AudioBuffer
  toDestination :: bool
  startTime :: real

text \<open>What the component asks of its collaborators, in the order it asks.\<close>

datatype effect =
    Render TrackName jsnum real
  | Start nat real
  | Stop nat

text \<open>
  The component's state variables, followed by what lives outside React: the
  \<open>TrackState\<close> objects (\<open>tracks\<close> holds references into \<open>heap\<close>, because a spread
  \<open>{ ...tracks }\<close> copies references and the assignments to
  \<open>newTracks[track].processedBuffer\<close> write through them), the audio context (its
  clock, the nodes that are sounding, the counter that names new nodes) and the
  trace of effects. \<open>clockStep\<close> is how far the audio clock, which runs on its own,
  advances while one stem is set up.
\<close>

record app =
  selectedSong :: "Song option"
  tracks :: "TrackName \<Rightarrow> nat"
  isLoading :: bool
  isProcessing :: bool
  isPlaying :: bool
  baseBpm :: real
  bpm :: real
  pitchSemitones :: int
  sources :: "SourceNode list"
  lastProcessedBpm :: "real option"
  lastProcessedPitch :: int
  heap :: "nat \<Rightarrow> TrackState"
  nextRef :: nat
  currentTime :: real
  clockStep :: real
  live :: "SourceNode list"
  nextNode :: nat
  trace :: "effect list"

type_synonym decoder = "TrackName \<Rightarrow> error + AudioBuffer"
type_synonym engine = "TrackName \<Rightarrow> AudioBuffer \<Rightarrow> jsnum \<Rightarrow> real \<Rightarrow> error + real list list"

definition BASE_BPM :: real where
  "BASE_BPM = 100"

definition BASE_BPM_v1 :: real where
  "BASE_BPM_v1 = 95"

text \<open>\<open>INITIAL_TRACKS\<close> is one module-level object holding four \<open>TrackState\<close> objects.\<close>

fun INITIAL_TRACKS :: "TrackName \<Rightarrow> nat" where
  "INITIAL_TRACKS bass = 0"
| "INITIAL_TRACKS drums = 1"
| "INITIAL_TRACKS other = 2"
| "INITIAL_TRACKS vocals = 3"

text \<open>\<open>Object.keys\<close> of a track record: the keys in insertion order.\<close>

definition trackNames :: "TrackName list" where
  "trackNames = [bass, drums, other, vocals]"

definition App_init :: app where
  "App_init = \<lparr> selectedSong = None, tracks = INITIAL_TRACKS, isLoading = False,
     isProcessing = False, isPlaying = False, baseBpm = BASE_BPM, bpm = BASE_BPM,
     pitchSemitones = 0, sources = [], lastProcessedBpm = None, lastProcessedPitch = 0,
     heap = (\<lambda>r. \<lparr> buffer = None, processedBuffer = None, muted = False \<rparr>),
     nextRef = 4, currentTime = 0, clockStep = 0, live = [], nextNode = 0, trace = [] \<rparr>"

section \<open>Playback\<close>

text \<open>
  The loop of \<open>handlePlay\<close>. \<open>now\<close> is the value read before the loop; \<open>trk\<close> is the
  \<open>tracks\<close> of the render whose handler is running.
\<close>

fun startSources :: "real \<Rightarrow> (TrackName \<Rightarrow> nat) \<Rightarrow> TrackName list \<Rightarrow> SourceNode list \<Rightarrow> app
    \<Rightarrow> SourceNode list \<times> app" where
  "startSources now trk [] newSources s = (newSources, s)"
| "startSources now trk (t # ts) newSources s =
     (let trackData = heap s (trk t) in
      case processedBuffer trackData of
        None \<Rightarrow> startSources now trk ts newSources s
      | Some pb \<Rightarrow>
          (let source = \<lparr> nodeId = nextNode s, srcTrack = t, srcBuffer = pb,
                 toDestination = \<not> muted trackData, startTime = now \<rparr>
           in startSources now trk ts (newSources @ [source])
                (s\<lparr> nextNode := Suc (nextNode s), live := live s @ [source],
                    currentTime := currentTime s + clockStep s,
                    trace := trace s @ [Start (nextNode s) now] \<rparr>)))"

text \<open>
  \<open>handlePlay\<close> is asynchronous and is also called from handlers that have awaited:
  \<open>isPlaying\<close> and \<open>tracks\<close> are those of the render \<open>c\<close> that created the handler,
  everything else is read where the call finds it.
\<close>

definition handlePlay :: "app \<Rightarrow> app \<Rightarrow> app" where
  "handlePlay c s =
     (if isPlaying c then s
      else (let now = currentTime s;
                (newSources, s') = startSources now (tracks c) trackNames [] s
            in s'\<lparr> sources := newSources, isPlaying := True \<rparr>))"

definition stopSource :: "SourceNode \<Rightarrow> app \<Rightarrow> app" where
  "stopSource source s =
     s\<lparr> live := filter (\<lambda>n. nodeId n \<noteq> nodeId source) (live s),
        trace := trace s @ [Stop (nodeId source)] \<rparr>"

definition handleStop :: "app \<Rightarrow> app" where
  "handleStop s = (fold stopSource (sources s) s)\<lparr> sources := [], isPlaying := False \<rparr>"

section \<open>Loading and rendering\<close>

fun loadStems :: "decoder \<Rightarrow> (TrackName \<Rightarrow> nat) \<Rightarrow> TrackName list \<Rightarrow> app \<Rightarrow> (error \<times> app) + app" where
  "loadStems decode newTracks [] s = Inr s"
| "loadStems decode newTracks (t # ts) s =
     (case decode t of
        Inl e \<Rightarrow> Inl (e, s)
      | Inr audioBuffer \<Rightarrow>
          loadStems decode newTracks ts
            (s\<lparr> heap := (heap s)(newTracks t := (heap s (newTracks t))
                   \<lparr> buffer := Some audioBuffer, processedBuffer := Some audioBuffer \<rparr>) \<rparr>))"

text \<open>
  \<open>loadBuffers\<close> of the latest prototype. A rejected fetch or decode leaves the
  function at the \<open>await\<close>: the state is left as it is then (\<open>Inl\<close>).
\<close>

definition loadBuffers :: "decoder \<Rightarrow> Song \<Rightarrow> app \<Rightarrow> app \<Rightarrow> (error \<times> app) + app" where
  "loadBuffers decode song c s =
     (case loadStems decode INITIAL_TRACKS trackNames (s\<lparr> isLoading := True \<rparr>) of
        Inl x \<Rightarrow> Inl x
      | Inr s' \<Rightarrow>
          Inr (handlePlay c
                 (s'\<lparr> tracks := INITIAL_TRACKS, lastProcessedBpm := Some (tempo song),
                      lastProcessedPitch := 0, isLoading := False \<rparr>)))"

definition loadBuffers_v1 :: "decoder \<Rightarrow> Song \<Rightarrow> app \<Rightarrow> (error \<times> app) + app" where
  "loadBuffers_v1 decode song s =
     (case loadStems decode INITIAL_TRACKS trackNames (s\<lparr> isLoading := True \<rparr>) of
        Inl x \<Rightarrow> Inl x
      | Inr s' \<Rightarrow> Inr (s'\<lparr> tracks := INITIAL_TRACKS, isLoading := False \<rparr>))"

text \<open>
  \<open>new OfflineAudioContext(numberOfChannels, length, sampleRate)\<close> followed by
  \<open>startRendering()\<close>: the rendered buffer has the format and the length the context
  was created with; what the SoundTouch filter puts into it is the collaborator's.
\<close>

definition startRendering :: "engine \<Rightarrow> TrackName \<Rightarrow> AudioBuffer \<Rightarrow> jsnum \<Rightarrow> real \<Rightarrow> error + AudioBuffer" where
  "startRendering eng t originalBuffer tempoRatio pitchRatio =
     (case eng t originalBuffer tempoRatio pitchRatio of
        Inl e \<Rightarrow> Inl e
      | Inr rendered \<Rightarrow>
          Inr \<lparr> numberOfChannels = numberOfChannels originalBuffer,
                length_frames = length_frames originalBuffer,
                sampleRate = sampleRate originalBuffer,
                channelData = rendered \<rparr>)"

text \<open>
  The loop of \<open>processAllTracks\<close>. The two ratios depend on state variables only, so
  they are passed in; \<open>newTracks\<close> is the spread copy, that is the same references.
\<close>

fun renderStems :: "engine \<Rightarrow> jsnum \<Rightarrow> real \<Rightarrow> (TrackName \<Rightarrow> nat) \<Rightarrow> TrackName list \<Rightarrow> app
    \<Rightarrow> (error \<times> app) + app" where
  "renderStems eng tempoRatio pitchRatio newTracks [] s = Inr s"
| "renderStems eng tempoRatio pitchRatio newTracks (t # ts) s =
     (case buffer (heap s (newTracks t)) of
        None \<Rightarrow> renderStems eng tempoRatio pitchRatio newTracks ts s
      | Some originalBuffer \<Rightarrow>
          (case startRendering eng t originalBuffer tempoRatio pitchRatio of
             Inl e \<Rightarrow> Inl (e, s\<lparr> trace := trace s @ [Render t tempoRatio pitchRatio] \<rparr>)
           | Inr renderedBuffer \<Rightarrow>
               renderStems eng tempoRatio pitchRatio newTracks ts
                 (s\<lparr> heap := (heap s)(newTracks t := (heap s (newTracks t))
                        \<lparr> processedBuffer := Some renderedBuffer \<rparr>),
                     trace := trace s @ [Render t tempoRatio pitchRatio] \<rparr>)))"

definition pitchRatio :: "app \<Rightarrow> real" where
  "pitchRatio s = 2 powr (real_of_int (pitchSemitones s) / 12)"

definition tempoRatio :: "app \<Rightarrow> jsnum" where
  "tempoRatio s = jsDiv (bpm s) (baseBpm s)"

definition tempoRatio_v1 :: "app \<Rightarrow> jsnum" where
  "tempoRatio_v1 s = jsDiv (bpm s) BASE_BPM_v1"

definition processAllTracks :: "engine \<Rightarrow> app \<Rightarrow> (error \<times> app) + app" where
  "processAllTracks eng s =
     (case renderStems eng (tempoRatio s) (pitchRatio s) (tracks s) trackNames
             (s\<lparr> isProcessing := True \<rparr>) of
        Inl x \<Rightarrow> Inl x
      | Inr s' \<Rightarrow>
          Inr (s'\<lparr> tracks := tracks s, lastProcessedBpm := Some (bpm s),
                   lastProcessedPitch := pitchSemitones s, isProcessing := False \<rparr>))"

definition processAllTracks_v1 :: "engine \<Rightarrow> app \<Rightarrow> (error \<times> app) + app" where
  "processAllTracks_v1 eng s =
     (case renderStems eng (tempoRatio_v1 s) (pitchRatio s) (tracks s) trackNames
             (s\<lparr> isProcessing := True \<rparr>) of
        Inl x \<Rightarrow> Inl x
      | Inr s' \<Rightarrow> Inr (s'\<lparr> tracks := tracks s, isProcessing := False \<rparr>))"

section \<open>Handlers of the latest prototype\<close>

definition needsProcessing :: "app \<Rightarrow> bool" where
  "needsProcessing s =
     (case lastProcessedBpm s of
        None \<Rightarrow> True
      | Some l \<Rightarrow> bpm s \<noteq> l \<or> pitchSemitones s \<noteq> lastProcessedPitch s)"

definition handlePlayClick :: "engine \<Rightarrow> app \<Rightarrow> (error \<times> app) + app" where
  "handlePlayClick eng s =
     (if isPlaying s then Inr (handleStop s)
      else if needsProcessing s then
        (case processAllTracks eng s of
           Inl x \<Rightarrow> Inl x
         | Inr s' \<Rightarrow> Inr (handlePlay s s'))
      else Inr (handlePlay s s))"

definition toggleMute :: "TrackName \<Rightarrow> app \<Rightarrow> app" where
  "toggleMute track s =
     (let s1 = (if isPlaying s then handleStop s else s);
          prev = tracks s1;
          r = nextRef s1
      in s1\<lparr> tracks := prev(track := r),
             heap := (heap s1)(r := (heap s1 (prev track))\<lparr> muted := \<not> muted (heap s1 (prev track)) \<rparr>),
             nextRef := Suc r \<rparr>)"

definition toggleMute_v1 :: "TrackName \<Rightarrow> app \<Rightarrow> app" where
  "toggleMute_v1 track s =
     (let prev = tracks s;
          r = nextRef s
      in s\<lparr> tracks := prev(track := r),
            heap := (heap s)(r := (heap s (prev track))\<lparr> muted := \<not> muted (heap s (prev track)) \<rparr>),
            nextRef := Suc r \<rparr>)"

text \<open>The \<open>onChange\<close> handlers of the two sliders.\<close>

definition tempoChange :: "real \<Rightarrow> app \<Rightarrow> app" where
  "tempoChange v s = (if isPlaying s then handleStop s else s)\<lparr> bpm := v \<rparr>"

definition pitchChange :: "int \<Rightarrow> app \<Rightarrow> app" where
  "pitchChange v s = (if isPlaying s then handleStop s else s)\<lparr> pitchSemitones := v \<rparr>"

text \<open>
  The \<open>onChange\<close> handler of the song selector, for a song found in the library:
  \<open>setSelectedSong(song)\<close>, the two effects on \<open>[selectedSong]\<close> (they run when
  the selected song changes, and together set \<open>bpm\<close> and \<open>baseBpm\<close> to the song's
  tempo), and \<open>loadBuffers(song)\<close>, whose closure is the render \<open>s\<close>. The library
  finds a song by artist and title, so the same song is the same object.
\<close>

definition songEffect :: "Song \<Rightarrow> app \<Rightarrow> app" where
  "songEffect song s =
     (if selectedSong s = Some song then s
      else s\<lparr> selectedSong := Some song, bpm := tempo song, baseBpm := tempo song \<rparr>)"

definition selectSong :: "decoder \<Rightarrow> Song \<Rightarrow> app \<Rightarrow> (error \<times> app) + app" where
  "selectSong decode song s = loadBuffers decode song s (songEffect song s)"

text \<open>The state a handler leaves behind, whether it returned or threw.\<close>

fun final :: "(error \<times> app) + app \<Rightarrow> app" where
  "final (Inl (e, s)) = s"
| "final (Inr s) = s"

text \<open>The \<open>Render\<close> effects of a trace: the invocations of the transform engine.\<close>

fun isRender :: "effect \<Rightarrow> bool" where
  "isRender (Render t a b) = True"
| "isRender e = False"

definition renders :: "app \<Rightarrow> effect list" where
  "renders s = filter isRender (trace s)"


text \<open>Whether a stem has an original buffer, and what rendering it gives (if it has one).\<close>

definition loaded :: "(TrackName \<Rightarrow> nat) \<Rightarrow> app \<Rightarrow> TrackName \<Rightarrow> bool" where
  "loaded nt s t = (buffer (heap s (nt t)) \<noteq> None)"

definition rendered :: "engine \<Rightarrow> jsnum \<Rightarrow> real \<Rightarrow> (TrackName \<Rightarrow> nat) \<Rightarrow> app \<Rightarrow> TrackName
    \<Rightarrow> (error + AudioBuffer) option" where
  "rendered eng tr pr nt s t =
     map_option (\<lambda>ob. startRendering eng t ob tr pr) (buffer (heap s (nt t)))"

text \<open>
  The playback session as the audio context has it: the sounding nodes are the
  ones the component remembers, one per stem at most, all started at one
  timestamp, and none when the component is not playing.
\<close>

definition oneSession :: "app \<Rightarrow> bool" where
  "oneSession s =
     (live s = sources s \<and> distinct (map srcTrack (live s))
      \<and> (\<forall>n \<in> set (live s). \<forall>m \<in> set (live s). startTime n = startTime m)
      \<and> (isPlaying s \<or> live s = []))"

text \<open>Every \<open>TrackState\<close> the component refers to has been allocated.\<close>

definition allocated :: "app \<Rightarrow> bool" where
  "allocated s = (\<forall>t. tracks s t < nextRef s)"

section \<open>The earlier prototypes\<close>

text \<open>
  The first prototype of \<open>App.tsx\<close>: \<open>bpm\<close> starts at its \<open>BASE_BPM\<close>, and the
  selector's handler sets the song, loads it, and the effect sets \<open>bpm\<close> only.
\<close>

definition App_init_v1 :: app where
  "App_init_v1 = App_init\<lparr> bpm := BASE_BPM_v1 \<rparr>"

definition selectSong_v1 :: "decoder \<Rightarrow> Song \<Rightarrow> app \<Rightarrow> (error \<times> app) + app" where
  "selectSong_v1 decode song s =
     loadBuffers_v1 decode song
       (if selectedSong s = Some song then s
        else s\<lparr> selectedSong := Some song, bpm := tempo song \<rparr>)"

text \<open>
  The prototype on \<open>Tone.Players\<close>. A player is known by how many of its sources are
  sounding and by its \<open>mute\<close> flag: \<open>start\<close> adds a source, \<open>stop\<close> ends all of a
  player's sources, \<open>stopAll\<close> stops every player in the order of the player map.
\<close>

record Player =
  sounding :: nat
  mute :: bool

datatype effect_v3 = PlayerStop TrackName | PlayerStart TrackName

record app_v3 =
  players :: "(TrackName \<Rightarrow> Player) option"
  isPlaying_v3 :: bool
  muteStates :: "TrackName \<Rightarrow> bool"
  trace_v3 :: "effect_v3 list"

definition playerStop :: "TrackName \<Rightarrow> (TrackName \<Rightarrow> Player) \<times> effect_v3 list
    \<Rightarrow> (TrackName \<Rightarrow> Player) \<times> effect_v3 list" where
  "playerStop t = (\<lambda>(ps, tr). (ps(t := (ps t)\<lparr> sounding := 0 \<rparr>), tr @ [PlayerStop t]))"

definition playerStart :: "TrackName \<Rightarrow> (TrackName \<Rightarrow> Player) \<times> effect_v3 list
    \<Rightarrow> (TrackName \<Rightarrow> Player) \<times> effect_v3 list" where
  "playerStart t = (\<lambda>(ps, tr). (ps(t := (ps t)\<lparr> sounding := Suc (sounding (ps t)) \<rparr>), tr @ [PlayerStart t]))"

definition stopAll :: "(TrackName \<Rightarrow> Player) \<times> effect_v3 list \<Rightarrow> (TrackName \<Rightarrow> Player) \<times> effect_v3 list" where
  "stopAll = fold playerStop trackNames"

definition handlePlay_v3 :: "app_v3 \<Rightarrow> app_v3" where
  "handlePlay_v3 s =
     (case players s of
        None \<Rightarrow> s
      | Some ps \<Rightarrow>
          (let (ps', tr') =
                 playerStart vocals (playerStart other (playerStart drums (playerStart bass
                   (stopAll (ps, trace_v3 s)))))
           in s\<lparr> players := Some ps', trace_v3 := tr', isPlaying_v3 := True \<rparr>))"

definition handleStop_v3 :: "app_v3 \<Rightarrow> app_v3" where
  "handleStop_v3 s =
     (case players s of
        None \<Rightarrow> s
      | Some ps \<Rightarrow>
          (let (ps', tr') = stopAll (ps, trace_v3 s)
           in s\<lparr> players := Some ps', trace_v3 := tr', isPlaying_v3 := False \<rparr>))"

definition toggleMute_v3 :: "TrackName \<Rightarrow> app_v3 \<Rightarrow> app_v3" where
  "toggleMute_v3 track s =
     (case players s of
        None \<Rightarrow> s
      | Some ps \<Rightarrow>
          (let newMuteState = \<not> muteStates s track
           in s\<lparr> players := Some (ps(track := (ps track)\<lparr> mute := newMuteState \<rparr>)),
                 muteStates := (muteStates s)(track := newMuteState) \<rparr>))"

text \<open>The base tempo in use is the selected song's own.\<close>

definition baseIsSongTempo :: "app \<Rightarrow> bool" where
  "baseIsSongTempo s = (\<forall>song. selectedSong s = Some song \<longrightarrow> baseBpm s = tempo song)"

section \<open>Example inputs\<close>

definition stemBuffer :: "nat \<Rightarrow> AudioBuffer" where
  "stemBuffer n = \<lparr> numberOfChannels = 2, length_frames = n, sampleRate = 44100, channelData = [] \<rparr>"

definition decodeAll :: decoder where
  "decodeAll t = Inr (stemBuffer 1000)"

definition engineOk :: engine where
  "engineOk t ob tr pr = Inr [[1]]"

definition engineFailsOnVocals :: engine where
  "engineFailsOnVocals t ob tr pr = (if t = vocals then Inl RenderError else Inr [[1]])"

definition songAt :: "real \<Rightarrow> Song" where
  "songAt b = \<lparr> title = ''This Love'', artist = ''Maroon 5'', songKey = ''Cm'', tempo = b \<rparr>"

text \<open>
  The second prototype (which loads its one song when it is mounted) with its four
  stems loaded and nothing playing; and the latest prototype right after a song has
  been selected and loaded, which is playing.
\<close>

definition loadedState :: app where
  "loadedState = final (loadBuffers_v1 decodeAll (songAt 95) App_init_v1)"

definition playingState :: app where
  "playingState = final (selectSong decodeAll (songAt 100) App_init)"

text \<open>
  The latest prototype after the tempo slider was moved to 50 while the song of
  tempo 100 was playing; and the first prototype after a song of tempo 120 was
  selected and loaded.
\<close>

definition slowedState :: app where
  "slowedState = tempoChange 50 playingState"

definition selectedState_v1 :: app where
  "selectedState_v1 = final (selectSong_v1 decodeAll (songAt 120) App_init_v1)"

text \<open>The player on \<open>Tone.Players\<close> with its four players sounding.\<close>

definition playing_v3 :: app_v3 where
  "playing_v3 = \<lparr> players = Some (\<lambda>t. \<lparr> sounding = 1, mute = False \<rparr>), isPlaying_v3 = True,
     muteStates = (\<lambda>t. False), trace_v3 = [] \<rparr>"

section \<open>Facts about the loops\<close>


lemma startSources_frame:
  "startSources now trk ts acc s = (ns, s') \<Longrightarrow>
     heap s' = heap s \<and> tracks s' = tracks s \<and> isPlaying s' = isPlaying s \<and> sources s' = sources s
     \<and> lastProcessedBpm s' = lastProcessedBpm s \<and> lastProcessedPitch s' = lastProcessedPitch s
     \<and> bpm s' = bpm s \<and> baseBpm s' = baseBpm s \<and> pitchSemitones s' = pitchSemitones s
     \<and> nextRef s' = nextRef s \<and> selectedSong s' = selectedSong s
     \<and> isLoading s' = isLoading s \<and> isProcessing s' = isProcessing s
     \<and> clockStep s' = clockStep s \<and> renders s' = renders s"
proof (induction ts arbitrary: acc s)
  case Nil
  then show ?case by simp
next
  case (Cons t ts)
  show ?case
  proof (cases "processedBuffer (heap s (trk t))")
    case None
    with Cons.prems have "startSources now trk ts acc s = (ns, s')" by simp
    from Cons.IH[OF this] show ?thesis .
  next
    case (Some pb)
    with Cons.prems have *: "startSources now trk ts (acc @ [\<lparr> nodeId = nextNode s, srcTrack = t, srcBuffer = pb,
                 toDestination = \<not> muted (heap s (trk t)), startTime = now \<rparr>])
                (s\<lparr> nextNode := Suc (nextNode s), live := live s @ [\<lparr> nodeId = nextNode s, srcTrack = t, srcBuffer = pb,
                 toDestination = \<not> muted (heap s (trk t)), startTime = now \<rparr>],
                    currentTime := currentTime s + clockStep s,
                    trace := trace s @ [Start (nextNode s) now] \<rparr>) = (ns, s')" by (simp add: Let_def)
    from Cons.IH[OF *] show ?thesis by (simp add: renders_def)
  qed
qed


lemma startSources_nodes:
  "startSources now trk ts acc s = (ns, s') \<Longrightarrow>
     (\<exists>new. ns = acc @ new \<and> live s' = live s @ new
        \<and> map srcTrack new = filter (\<lambda>t. processedBuffer (heap s (trk t)) \<noteq> None) ts
        \<and> map nodeId new = [nextNode s ..< nextNode s + length new]
        \<and> nextNode s' = nextNode s + length new
        \<and> currentTime s' = currentTime s + real (length new) * clockStep s
        \<and> (\<forall>n \<in> set new. startTime n = now
              \<and> processedBuffer (heap s (trk (srcTrack n))) = Some (srcBuffer n)
              \<and> toDestination n = (\<not> muted (heap s (trk (srcTrack n))))))"
proof (induction ts arbitrary: acc s)
  case Nil
  then show ?case by simp
next
  case (Cons t ts)
  show ?case
  proof (cases "processedBuffer (heap s (trk t))")
    case None
    with Cons.prems have "startSources now trk ts acc s = (ns, s')" by simp
    from Cons.IH[OF this] None show ?thesis by auto
  next
    case (Some pb)
    define src where "src = \<lparr> nodeId = nextNode s, srcTrack = t, srcBuffer = pb,
                 toDestination = \<not> muted (heap s (trk t)), startTime = now \<rparr>"
    define s1 where "s1 = s\<lparr> nextNode := Suc (nextNode s), live := live s @ [src],
                    currentTime := currentTime s + clockStep s,
                    trace := trace s @ [Start (nextNode s) now] \<rparr>"
    from Some Cons.prems have *: "startSources now trk ts (acc @ [src]) s1 = (ns, s')"
      by (simp add: Let_def src_def s1_def)
    from Cons.IH[OF *] obtain new where new: "ns = (acc @ [src]) @ new" "live s' = live s1 @ new"
        "map srcTrack new = filter (\<lambda>t. processedBuffer (heap s1 (trk t)) \<noteq> None) ts"
        "map nodeId new = [nextNode s1 ..< nextNode s1 + length new]"
        "nextNode s' = nextNode s1 + length new"
        "currentTime s' = currentTime s1 + real (length new) * clockStep s1"
        "\<forall>n \<in> set new. startTime n = now
              \<and> processedBuffer (heap s1 (trk (srcTrack n))) = Some (srcBuffer n)
              \<and> toDestination n = (\<not> muted (heap s1 (trk (srcTrack n))))"
      by blast
    have h: "heap s1 = heap s" "live s1 = live s @ [src]" "nextNode s1 = Suc (nextNode s)"
      "currentTime s1 = currentTime s + clockStep s" "clockStep s1 = clockStep s"
      by (simp_all add: s1_def)
    have "ns = acc @ (src # new)" using new(1) by simp
    moreover have "live s' = live s @ (src # new)" using new(2) h by simp
    moreover have "map srcTrack (src # new) = filter (\<lambda>t. processedBuffer (heap s (trk t)) \<noteq> None) (t # ts)"
      using new(3) h Some by (simp add: src_def)
    moreover have "map nodeId (src # new) = [nextNode s ..< nextNode s + length (src # new)]"
    proof -
      have "[nextNode s ..< nextNode s + Suc (length new)]
          = nextNode s # [Suc (nextNode s) ..< Suc (nextNode s) + length new]"
        by (subst upt_conv_Cons) simp_all
      then show ?thesis using new(4) h by (simp add: src_def)
    qed
    moreover have "nextNode s' = nextNode s + length (src # new)" using new(5) h by simp
    moreover have "currentTime s' = currentTime s + real (length (src # new)) * clockStep s"
      using new(6) h by (simp add: algebra_simps)
    moreover have "\<forall>n \<in> set (src # new). startTime n = now
              \<and> processedBuffer (heap s (trk (srcTrack n))) = Some (srcBuffer n)
              \<and> toDestination n = (\<not> muted (heap s (trk (srcTrack n))))"
      using new(7) h Some by (simp add: src_def)
    ultimately show ?thesis by blast
  qed
qed


lemma fold_stopSource:
  "fold stopSource srcs s =
     s\<lparr> live := filter (\<lambda>n. nodeId n \<notin> nodeId ` set srcs) (live s),
        trace := trace s @ map (\<lambda>x. Stop (nodeId x)) srcs \<rparr>"
proof (induction srcs arbitrary: s)
  case Nil
  then show ?case by simp
next
  case (Cons x xs)
  have f: "filter (\<lambda>n. nodeId n \<notin> nodeId ` set xs) (filter (\<lambda>n. nodeId n \<noteq> nodeId x) (live s))
      = filter (\<lambda>n. nodeId n \<notin> nodeId ` set (x # xs)) (live s)"
    by (auto intro: filter_cong)
  have "fold stopSource (x # xs) s = fold stopSource xs (stopSource x s)" by simp
  also have "\<dots> = (stopSource x s)\<lparr> live := filter (\<lambda>n. nodeId n \<notin> nodeId ` set xs) (live (stopSource x s)),
        trace := trace (stopSource x s) @ map (\<lambda>x. Stop (nodeId x)) xs \<rparr>"
    by (rule Cons.IH)
  also have "\<dots> = s\<lparr> live := filter (\<lambda>n. nodeId n \<notin> nodeId ` set (x # xs)) (live s),
        trace := trace s @ map (\<lambda>x. Stop (nodeId x)) (x # xs) \<rparr>"
    using f by (simp add: stopSource_def)
  finally show ?case .
qed

lemma handleStop_eq:
  "handleStop s =
     s\<lparr> live := filter (\<lambda>n. nodeId n \<notin> nodeId ` set (sources s)) (live s),
        trace := trace s @ map (\<lambda>x. Stop (nodeId x)) (sources s),
        sources := [], isPlaying := False \<rparr>"
  by (simp add: handleStop_def fold_stopSource)

lemma renders_append_Stop [simp]:
  "filter isRender (map (\<lambda>x. Stop (nodeId x)) xs) = []"
  by (induction xs) auto

lemma renderStems_frame:
  "final (renderStems eng tr pr nt ts s) = s' \<Longrightarrow>
     tracks s' = tracks s \<and> isPlaying s' = isPlaying s \<and> sources s' = sources s
     \<and> lastProcessedBpm s' = lastProcessedBpm s \<and> lastProcessedPitch s' = lastProcessedPitch s
     \<and> bpm s' = bpm s \<and> baseBpm s' = baseBpm s \<and> pitchSemitones s' = pitchSemitones s
     \<and> nextRef s' = nextRef s \<and> selectedSong s' = selectedSong s
     \<and> isLoading s' = isLoading s \<and> isProcessing s' = isProcessing s
     \<and> clockStep s' = clockStep s \<and> currentTime s' = currentTime s
     \<and> live s' = live s \<and> nextNode s' = nextNode s
     \<and> (\<forall>r. buffer (heap s' r) = buffer (heap s r) \<and> muted (heap s' r) = muted (heap s r))
     \<and> (\<forall>r. r \<notin> nt ` set ts \<longrightarrow> heap s' r = heap s r)"
proof (induction ts arbitrary: s)
  case Nil
  then show ?case by auto
next
  case (Cons t ts)
  show ?case
  proof (cases "buffer (heap s (nt t))")
    case None
    with Cons.prems have "final (renderStems eng tr pr nt ts s) = s'" by simp
    from Cons.IH[OF this] show ?thesis by auto
  next
    case (Some ob)
    show ?thesis
    proof (cases "startRendering eng t ob tr pr")
      case (Inl e)
      with Some Cons.prems show ?thesis by auto
    next
      case (Inr rb)
      define s1 where "s1 = s\<lparr> heap := (heap s)(nt t := (heap s (nt t))\<lparr> processedBuffer := Some rb \<rparr>),
                     trace := trace s @ [Render t tr pr] \<rparr>"
      from Some Inr Cons.prems have "final (renderStems eng tr pr nt ts s1) = s'"
        by (simp add: s1_def)
      from Cons.IH[OF this] show ?thesis by (auto simp: s1_def)
    qed
  qed
qed

lemma renderStems_Inr:
  "distinct ts \<Longrightarrow> inj_on nt (set ts) \<Longrightarrow> renderStems eng tr pr nt ts s = Inr s' \<Longrightarrow>
     trace s' = trace s @ map (\<lambda>t. Render t tr pr) (filter (loaded nt s) ts)
     \<and> (\<forall>t \<in> set ts. case rendered eng tr pr nt s t of
           None \<Rightarrow> heap s' (nt t) = heap s (nt t)
         | Some r \<Rightarrow> (\<exists>rb. r = Inr rb \<and> processedBuffer (heap s' (nt t)) = Some rb))"
proof (induction ts arbitrary: s)
  case Nil
  then show ?case by simp
next
  case (Cons t ts)
  have d: "distinct ts" "inj_on nt (set ts)" "nt t \<notin> nt ` set ts"
    using Cons.prems(1,2) by auto
  have ne: "\<forall>u \<in> set ts. nt u \<noteq> nt t"
    using d(3) by (metis imageI)
  show ?case
  proof (cases "buffer (heap s (nt t))")
    case None
    with Cons.prems have r: "renderStems eng tr pr nt ts s = Inr s'" by simp
    have "heap s' (nt t) = heap s (nt t)"
      using renderStems_frame[of eng tr pr nt ts s s'] r d(3) by simp
    with Cons.IH[OF d(1,2) r] None show ?thesis by (simp add: loaded_def rendered_def)
  next
    case (Some ob)
    show ?thesis
    proof (cases "startRendering eng t ob tr pr")
      case (Inl e)
      with Some Cons.prems show ?thesis by simp
    next
      case (Inr rb)
      define s1 where "s1 = s\<lparr> heap := (heap s)(nt t := (heap s (nt t))\<lparr> processedBuffer := Some rb \<rparr>),
                     trace := trace s @ [Render t tr pr] \<rparr>"
      from Some Inr Cons.prems have r: "renderStems eng tr pr nt ts s1 = Inr s'"
        by (simp add: s1_def)
      have same: "\<forall>u \<in> set ts. heap s1 (nt u) = heap s (nt u)"
        using ne by (simp add: s1_def)
      then have l: "filter (loaded nt s1) ts = filter (loaded nt s) ts"
        by (auto simp: loaded_def intro: filter_cong)
      have rr: "\<forall>u \<in> set ts. rendered eng tr pr nt s1 u = rendered eng tr pr nt s u"
        using same by (simp add: rendered_def)
      have "heap s' (nt t) = heap s1 (nt t)"
        using renderStems_frame[of eng tr pr nt ts s1 s'] r d(3) by simp
      then have t: "processedBuffer (heap s' (nt t)) = Some rb" by (simp add: s1_def)
      have lt: "loaded nt s t" and rt: "rendered eng tr pr nt s t = Some (Inr rb)"
        using Some Inr by (simp_all add: loaded_def rendered_def)
      have tr1: "trace s1 = trace s @ [Render t tr pr]" by (simp add: s1_def)
      from Cons.IH[OF d(1,2) r] have
        ih1: "trace s' = trace s1 @ map (\<lambda>t. Render t tr pr) (filter (loaded nt s1) ts)" and
        ih2: "\<forall>u \<in> set ts. case rendered eng tr pr nt s1 u of
           None \<Rightarrow> heap s' (nt u) = heap s1 (nt u)
         | Some r \<Rightarrow> (\<exists>rb. r = Inr rb \<and> processedBuffer (heap s' (nt u)) = Some rb)"
        by blast+
      have "trace s' = trace s @ map (\<lambda>t. Render t tr pr) (filter (loaded nt s) (t # ts))"
        using ih1 l lt tr1 by simp
      moreover have "\<forall>u \<in> set (t # ts). case rendered eng tr pr nt s u of
           None \<Rightarrow> heap s' (nt u) = heap s (nt u)
         | Some r \<Rightarrow> (\<exists>rb. r = Inr rb \<and> processedBuffer (heap s' (nt u)) = Some rb)"
        using ih2 rr same rt t by (auto split: option.splits)
      ultimately show ?thesis by blast
    qed
  qed
qed

lemma renderStems_Inl:
  "distinct ts \<Longrightarrow> inj_on nt (set ts) \<Longrightarrow> renderStems eng tr pr nt ts s = Inl (e, s') \<Longrightarrow>
     \<exists>ts1 t ts2. ts = ts1 @ t # ts2
       \<and> rendered eng tr pr nt s t = Some (Inl e)
       \<and> trace s' = trace s @ map (\<lambda>t. Render t tr pr) (filter (loaded nt s) (ts1 @ [t]))
       \<and> (\<forall>u \<in> set (t # ts2). heap s' (nt u) = heap s (nt u))
       \<and> (\<forall>u \<in> set ts1. case rendered eng tr pr nt s u of
             None \<Rightarrow> heap s' (nt u) = heap s (nt u)
           | Some r \<Rightarrow> (\<exists>rb. r = Inr rb \<and> processedBuffer (heap s' (nt u)) = Some rb))"
proof (induction ts arbitrary: s)
  case Nil
  then show ?case by simp
next
  case (Cons t ts)
  have d: "distinct ts" "inj_on nt (set ts)" "nt t \<notin> nt ` set ts"
    using Cons.prems(1,2) by auto
  have ne: "\<forall>u \<in> set ts. nt u \<noteq> nt t"
    using d(3) by (metis imageI)
  show ?case
  proof (cases "buffer (heap s (nt t))")
    case None
    with Cons.prems have r: "renderStems eng tr pr nt ts s = Inl (e, s')" by simp
    have h: "heap s' (nt t) = heap s (nt t)"
      using renderStems_frame[of eng tr pr nt ts s s'] r d(3) by simp
    from Cons.IH[OF d(1,2) r] obtain ts1 u ts2 where
      split: "ts = ts1 @ u # ts2" "rendered eng tr pr nt s u = Some (Inl e)"
        "trace s' = trace s @ map (\<lambda>t. Render t tr pr) (filter (loaded nt s) (ts1 @ [u]))"
        "\<forall>v \<in> set (u # ts2). heap s' (nt v) = heap s (nt v)"
        "\<forall>v \<in> set ts1. case rendered eng tr pr nt s v of
             None \<Rightarrow> heap s' (nt v) = heap s (nt v)
           | Some r \<Rightarrow> (\<exists>rb. r = Inr rb \<and> processedBuffer (heap s' (nt v)) = Some rb)"
      by blast
    have "t # ts = (t # ts1) @ u # ts2" using split(1) by simp
    moreover have "trace s' = trace s @ map (\<lambda>t. Render t tr pr) (filter (loaded nt s) ((t # ts1) @ [u]))"
      using split(3) None by (simp add: loaded_def)
    moreover have "\<forall>v \<in> set (t # ts1). case rendered eng tr pr nt s v of
             None \<Rightarrow> heap s' (nt v) = heap s (nt v)
           | Some r \<Rightarrow> (\<exists>rb. r = Inr rb \<and> processedBuffer (heap s' (nt v)) = Some rb)"
      using split(5) None h by (simp add: rendered_def)
    ultimately show ?thesis using split(2,4) by blast
  next
    case (Some ob)
    show ?thesis
    proof (cases "startRendering eng t ob tr pr")
      case (Inl e')
      with Some Cons.prems have e: "e' = e" "s' = s\<lparr> trace := trace s @ [Render t tr pr] \<rparr>" by auto
      have "t # ts = [] @ t # ts" by simp
      moreover have "rendered eng tr pr nt s t = Some (Inl e)"
        using Some Inl e by (simp add: rendered_def)
      moreover have "trace s' = trace s @ map (\<lambda>t. Render t tr pr) (filter (loaded nt s) ([] @ [t]))"
        using e Some by (simp add: loaded_def)
      moreover have "\<forall>u \<in> set (t # ts). heap s' (nt u) = heap s (nt u)" using e by simp
      moreover have "\<forall>u \<in> set ([]::TrackName list). case rendered eng tr pr nt s u of
             None \<Rightarrow> heap s' (nt u) = heap s (nt u)
           | Some r \<Rightarrow> (\<exists>rb. r = Inr rb \<and> processedBuffer (heap s' (nt u)) = Some rb)" by simp
      ultimately show ?thesis by blast
    next
      case (Inr rb)
      define s1 where "s1 = s\<lparr> heap := (heap s)(nt t := (heap s (nt t))\<lparr> processedBuffer := Some rb \<rparr>),
                     trace := trace s @ [Render t tr pr] \<rparr>"
      from Some Inr Cons.prems have r: "renderStems eng tr pr nt ts s1 = Inl (e, s')"
        by (simp add: s1_def)
      have same: "\<forall>u \<in> set ts. heap s1 (nt u) = heap s (nt u)"
        using ne by (simp add: s1_def)
      have "heap s' (nt t) = heap s1 (nt t)"
        using renderStems_frame[of eng tr pr nt ts s1 s'] r d(3) by simp
      then have t: "processedBuffer (heap s' (nt t)) = Some rb" by (simp add: s1_def)
      from Cons.IH[OF d(1,2) r] obtain ts1 u ts2 where
        split: "ts = ts1 @ u # ts2" "rendered eng tr pr nt s1 u = Some (Inl e)"
          "trace s' = trace s1 @ map (\<lambda>t. Render t tr pr) (filter (loaded nt s1) (ts1 @ [u]))"
          "\<forall>v \<in> set (u # ts2). heap s' (nt v) = heap s1 (nt v)"
          "\<forall>v \<in> set ts1. case rendered eng tr pr nt s1 v of
               None \<Rightarrow> heap s' (nt v) = heap s1 (nt v)
             | Some r \<Rightarrow> (\<exists>rb. r = Inr rb \<and> processedBuffer (heap s' (nt v)) = Some rb)"
        by blast
      have sub: "set (ts1 @ [u]) \<subseteq> set ts" "set (u # ts2) \<subseteq> set ts" "set ts1 \<subseteq> set ts"
        using split(1) by auto
      have l: "filter (loaded nt s1) (ts1 @ [u]) = filter (loaded nt s) (ts1 @ [u])"
        using same sub(1) by (intro filter_cong) (auto simp: loaded_def)
      have rr: "\<forall>v \<in> set ts. rendered eng tr pr nt s1 v = rendered eng tr pr nt s v"
        using same by (simp add: rendered_def)
      have "t # ts = (t # ts1) @ u # ts2" using split(1) by simp
      moreover have "rendered eng tr pr nt s u = Some (Inl e)" using split(2) rr sub(2) by auto
      moreover have "trace s' = trace s @ map (\<lambda>t. Render t tr pr) (filter (loaded nt s) ((t # ts1) @ [u]))"
      proof -
        have "loaded nt s t" using Some by (simp add: loaded_def)
        then have e1: "filter (loaded nt s) ((t # ts1) @ [u]) = t # filter (loaded nt s) (ts1 @ [u])"
          by simp
        have tr1: "trace s1 = trace s @ [Render t tr pr]" by (simp add: s1_def)
        show ?thesis unfolding split(3) l e1 tr1 by simp
      qed
      moreover have "\<forall>v \<in> set (u # ts2). heap s' (nt v) = heap s (nt v)"
        using split(4) same sub(2) by auto
      moreover have "\<forall>v \<in> set (t # ts1). case rendered eng tr pr nt s v of
               None \<Rightarrow> heap s' (nt v) = heap s (nt v)
             | Some r \<Rightarrow> (\<exists>rb. r = Inr rb \<and> processedBuffer (heap s' (nt v)) = Some rb)"
      proof
        fix v assume v: "v \<in> set (t # ts1)"
        show "case rendered eng tr pr nt s v of
               None \<Rightarrow> heap s' (nt v) = heap s (nt v)
             | Some r \<Rightarrow> (\<exists>rb. r = Inr rb \<and> processedBuffer (heap s' (nt v)) = Some rb)"
        proof (cases "v = t")
          case True
          then show ?thesis using t Some Inr by (simp add: rendered_def)
        next
          case False
          with v have v1: "v \<in> set ts1" by simp
          then have "v \<in> set ts" using sub(3) by auto
          with split(5) v1 rr same show ?thesis by (auto split: option.splits)
        qed
      qed
      ultimately show ?thesis by blast
    qed
  qed
qed

lemma loadStems_frame:
  "final (loadStems decode nt ts s) = s' \<Longrightarrow>
     tracks s' = tracks s \<and> isPlaying s' = isPlaying s \<and> sources s' = sources s
     \<and> lastProcessedBpm s' = lastProcessedBpm s \<and> lastProcessedPitch s' = lastProcessedPitch s
     \<and> bpm s' = bpm s \<and> baseBpm s' = baseBpm s \<and> pitchSemitones s' = pitchSemitones s
     \<and> nextRef s' = nextRef s \<and> selectedSong s' = selectedSong s
     \<and> isLoading s' = isLoading s \<and> isProcessing s' = isProcessing s
     \<and> clockStep s' = clockStep s \<and> currentTime s' = currentTime s
     \<and> live s' = live s \<and> nextNode s' = nextNode s \<and> trace s' = trace s
     \<and> (\<forall>r. muted (heap s' r) = muted (heap s r))
     \<and> (\<forall>r. r \<notin> nt ` set ts \<longrightarrow> heap s' r = heap s r)"
proof (induction ts arbitrary: s)
  case Nil
  then show ?case by auto
next
  case (Cons t ts)
  show ?case
  proof (cases "decode t")
    case (Inl e)
    with Cons.prems show ?thesis by auto
  next
    case (Inr ab)
    define s1 where "s1 = s\<lparr> heap := (heap s)(nt t := (heap s (nt t))
                   \<lparr> buffer := Some ab, processedBuffer := Some ab \<rparr>) \<rparr>"
    from Inr Cons.prems have "final (loadStems decode nt ts s1) = s'" by (simp add: s1_def)
    from Cons.IH[OF this] show ?thesis by (auto simp: s1_def)
  qed
qed

lemma loadStems_Inr:
  "distinct ts \<Longrightarrow> inj_on nt (set ts) \<Longrightarrow> loadStems decode nt ts s = Inr s' \<Longrightarrow>
     (\<forall>t \<in> set ts. \<exists>ab. decode t = Inr ab \<and> buffer (heap s' (nt t)) = Some ab
         \<and> processedBuffer (heap s' (nt t)) = Some ab)"
proof (induction ts arbitrary: s)
  case Nil
  then show ?case by simp
next
  case (Cons t ts)
  have d: "distinct ts" "inj_on nt (set ts)" "nt t \<notin> nt ` set ts"
    using Cons.prems(1,2) by auto
  show ?case
  proof (cases "decode t")
    case (Inl e)
    with Cons.prems show ?thesis by simp
  next
    case (Inr ab)
    define s1 where "s1 = s\<lparr> heap := (heap s)(nt t := (heap s (nt t))
                   \<lparr> buffer := Some ab, processedBuffer := Some ab \<rparr>) \<rparr>"
    from Inr Cons.prems have r: "loadStems decode nt ts s1 = Inr s'" by (simp add: s1_def)
    have "heap s' (nt t) = heap s1 (nt t)"
      using loadStems_frame[of decode nt ts s1 s'] r d(3) by simp
    then have "buffer (heap s' (nt t)) = Some ab \<and> processedBuffer (heap s' (nt t)) = Some ab"
      by (simp add: s1_def)
    with Cons.IH[OF d(1,2) r] Inr show ?thesis by simp
  qed
qed

lemma distinct_trackNames: "distinct trackNames"
  by (simp add: trackNames_def)

lemma set_trackNames: "set trackNames = UNIV"
proof -
  have "t \<in> set trackNames" for t by (cases t) (simp_all add: trackNames_def)
  then show ?thesis by blast
qed

lemma inj_INITIAL_TRACKS: "inj INITIAL_TRACKS"
proof (rule injI)
  fix x y assume "INITIAL_TRACKS x = INITIAL_TRACKS y"
  then show "x = y" by (cases x; cases y) simp_all
qed

lemma handlePlay_guard: "isPlaying c \<Longrightarrow> handlePlay c s = s"
  by (simp add: handlePlay_def)

lemma handlePlay_started:
  assumes "\<not> isPlaying c"
  shows "isPlaying (handlePlay c s) \<and> live (handlePlay c s) = live s @ sources (handlePlay c s)
     \<and> map srcTrack (sources (handlePlay c s))
         = filter (\<lambda>t. processedBuffer (heap s (tracks c t)) \<noteq> None) trackNames
     \<and> nextNode (handlePlay c s) = nextNode s + length (sources (handlePlay c s))
     \<and> currentTime (handlePlay c s)
         = currentTime s + real (length (sources (handlePlay c s))) * clockStep s
     \<and> (\<forall>n \<in> set (sources (handlePlay c s)). startTime n = currentTime s
           \<and> processedBuffer (heap s (tracks c (srcTrack n))) = Some (srcBuffer n)
           \<and> toDestination n = (\<not> muted (heap s (tracks c (srcTrack n)))))"
proof -
  obtain ns s' where r: "startSources (currentTime s) (tracks c) trackNames [] s = (ns, s')"
    by (cases "startSources (currentTime s) (tracks c) trackNames [] s")
  then have hp: "handlePlay c s = s'\<lparr> sources := ns, isPlaying := True \<rparr>"
    using assms by (simp add: handlePlay_def)
  from startSources_nodes[OF r] show ?thesis unfolding hp by auto
qed

lemma handlePlay_frame:
  "heap (handlePlay c s) = heap s \<and> tracks (handlePlay c s) = tracks s
     \<and> lastProcessedBpm (handlePlay c s) = lastProcessedBpm s
     \<and> lastProcessedPitch (handlePlay c s) = lastProcessedPitch s
     \<and> bpm (handlePlay c s) = bpm s \<and> baseBpm (handlePlay c s) = baseBpm s
     \<and> pitchSemitones (handlePlay c s) = pitchSemitones s
     \<and> nextRef (handlePlay c s) = nextRef s \<and> selectedSong (handlePlay c s) = selectedSong s
     \<and> isLoading (handlePlay c s) = isLoading s \<and> isProcessing (handlePlay c s) = isProcessing s
     \<and> clockStep (handlePlay c s) = clockStep s \<and> renders (handlePlay c s) = renders s"
proof (cases "isPlaying c")
  case True
  then show ?thesis by (simp add: handlePlay_def)
next
  case False
  obtain ns s' where r: "startSources (currentTime s) (tracks c) trackNames [] s = (ns, s')"
    by (cases "startSources (currentTime s) (tracks c) trackNames [] s")
  then have hp: "handlePlay c s = s'\<lparr> sources := ns, isPlaying := True \<rparr>"
    using False by (simp add: handlePlay_def)
  from startSources_frame[OF r] show ?thesis unfolding hp by (simp add: renders_def)
qed

lemma loadStems_total:
  "(\<forall>t \<in> set ts. \<exists>ab. decode t = Inr ab) \<Longrightarrow> \<exists>s'. loadStems decode nt ts s = Inr s'"
proof (induction ts arbitrary: s)
  case Nil
  then show ?case by simp
next
  case (Cons t ts)
  then obtain ab where "decode t = Inr ab" by auto
  with Cons show ?case by simp
qed

lemma songEffect_frame:
  "tracks (songEffect song s) = tracks s \<and> isPlaying (songEffect song s) = isPlaying s
   \<and> sources (songEffect song s) = sources s \<and> live (songEffect song s) = live s
   \<and> trace (songEffect song s) = trace s \<and> heap (songEffect song s) = heap s
   \<and> currentTime (songEffect song s) = currentTime s \<and> nextNode (songEffect song s) = nextNode s
   \<and> nextRef (songEffect song s) = nextRef s \<and> clockStep (songEffect song s) = clockStep s
   \<and> pitchSemitones (songEffect song s) = pitchSemitones s
   \<and> isProcessing (songEffect song s) = isProcessing s
   \<and> selectedSong (songEffect song s) = Some song"
  by (simp add: songEffect_def)

lemma selectSong_Inr:
  assumes "selectSong decode song s = Inr s'"
  shows "\<exists>s1. s' = handlePlay s s1 \<and> tracks s1 = INITIAL_TRACKS
     \<and> lastProcessedBpm s1 = Some (tempo song) \<and> lastProcessedPitch s1 = 0
     \<and> isLoading s1 = False \<and> isPlaying s1 = isPlaying s \<and> sources s1 = sources s
     \<and> live s1 = live s \<and> trace s1 = trace s \<and> currentTime s1 = currentTime s
     \<and> nextNode s1 = nextNode s \<and> nextRef s1 = nextRef s \<and> clockStep s1 = clockStep s
     \<and> bpm s1 = bpm (songEffect song s) \<and> baseBpm s1 = baseBpm (songEffect song s)
     \<and> selectedSong s1 = Some song \<and> pitchSemitones s1 = pitchSemitones s
     \<and> isProcessing s1 = isProcessing s
     \<and> (\<forall>t. \<exists>ab. decode t = Inr ab \<and> buffer (heap s1 (INITIAL_TRACKS t)) = Some ab
             \<and> processedBuffer (heap s1 (INITIAL_TRACKS t)) = Some ab)
     \<and> (\<forall>r. r \<notin> range INITIAL_TRACKS \<longrightarrow> heap s1 r = heap s r)
     \<and> (\<forall>r. muted (heap s1 r) = muted (heap s r))"
proof -
  let ?s0 = "(songEffect song s)\<lparr> isLoading := True \<rparr>"
  obtain s2 where l: "loadStems decode INITIAL_TRACKS trackNames ?s0 = Inr s2"
    using assms by (auto simp: selectSong_def loadBuffers_def split: sum.splits)
  let ?s1 = "s2\<lparr> tracks := INITIAL_TRACKS, lastProcessedBpm := Some (tempo song),
                      lastProcessedPitch := 0, isLoading := False \<rparr>"
  have s': "s' = handlePlay s ?s1"
    using assms l by (simp add: selectSong_def loadBuffers_def)
  have fr: "final (loadStems decode INITIAL_TRACKS trackNames ?s0) = s2" using l by simp
  note f = loadStems_frame[OF fr] songEffect_frame[of song s]
  have inj: "inj_on INITIAL_TRACKS (set trackNames)"
    using inj_INITIAL_TRACKS by (rule inj_on_subset) simp
  note h = loadStems_Inr[OF distinct_trackNames inj l, unfolded set_trackNames]
  have "tracks ?s1 = INITIAL_TRACKS" "lastProcessedBpm ?s1 = Some (tempo song)"
    "lastProcessedPitch ?s1 = 0" "isLoading ?s1 = False" by simp_all
  moreover have "isPlaying ?s1 = isPlaying s" "sources ?s1 = sources s" "live ?s1 = live s"
    "trace ?s1 = trace s" "currentTime ?s1 = currentTime s" "nextNode ?s1 = nextNode s"
    "nextRef ?s1 = nextRef s" "clockStep ?s1 = clockStep s"
    "bpm ?s1 = bpm (songEffect song s)" "baseBpm ?s1 = baseBpm (songEffect song s)"
    "selectedSong ?s1 = Some song" "pitchSemitones ?s1 = pitchSemitones s"
    "isProcessing ?s1 = isProcessing s"
    using f by simp_all
  moreover have "\<forall>t. \<exists>ab. decode t = Inr ab \<and> buffer (heap ?s1 (INITIAL_TRACKS t)) = Some ab
             \<and> processedBuffer (heap ?s1 (INITIAL_TRACKS t)) = Some ab"
    using h by simp
  moreover have "\<forall>r. r \<notin> range INITIAL_TRACKS \<longrightarrow> heap ?s1 r = heap s r"
    using f by (simp add: set_trackNames)
  moreover have "\<forall>r. muted (heap ?s1 r) = muted (heap s r)"
    using f by simp
  ultimately show ?thesis using s' by blast
qed

lemma selectSong_total:
  "(\<forall>t. \<exists>ab. decode t = Inr ab) \<Longrightarrow> \<exists>s'. selectSong decode song s = Inr s'"
proof -
  assume "\<forall>t. \<exists>ab. decode t = Inr ab"
  then obtain s2 where
    "loadStems decode INITIAL_TRACKS trackNames ((songEffect song s)\<lparr> isLoading := True \<rparr>) = Inr s2"
    using loadStems_total[of trackNames decode INITIAL_TRACKS] by blast
  then show ?thesis by (simp add: selectSong_def loadBuffers_def)
qed

lemma handleStop_frame:
  "heap (handleStop s) = heap s \<and> tracks (handleStop s) = tracks s
   \<and> nextRef (handleStop s) = nextRef s \<and> renders (handleStop s) = renders s
   \<and> lastProcessedBpm (handleStop s) = lastProcessedBpm s
   \<and> lastProcessedPitch (handleStop s) = lastProcessedPitch s
   \<and> bpm (handleStop s) = bpm s \<and> baseBpm (handleStop s) = baseBpm s
   \<and> pitchSemitones (handleStop s) = pitchSemitones s
   \<and> selectedSong (handleStop s) = selectedSong s
   \<and> currentTime (handleStop s) = currentTime s \<and> clockStep (handleStop s) = clockStep s
   \<and> nextNode (handleStop s) = nextNode s
   \<and> isLoading (handleStop s) = isLoading s \<and> isProcessing (handleStop s) = isProcessing s
   \<and> sources (handleStop s) = [] \<and> \<not> isPlaying (handleStop s)
   \<and> live (handleStop s) = filter (\<lambda>n. nodeId n \<notin> nodeId ` set (sources s)) (live s)"
  by (simp add: handleStop_eq renders_def)

lemma toggleMute_eq:
  "toggleMute track s = (if isPlaying s then toggleMute_v1 track (handleStop s) else toggleMute_v1 track s)"
  by (simp add: toggleMute_def toggleMute_v1_def Let_def)

lemma toggleMute_v1_frame:
  "live (toggleMute_v1 track s) = live s \<and> sources (toggleMute_v1 track s) = sources s
   \<and> isPlaying (toggleMute_v1 track s) = isPlaying s \<and> trace (toggleMute_v1 track s) = trace s
   \<and> renders (toggleMute_v1 track s) = renders s
   \<and> lastProcessedBpm (toggleMute_v1 track s) = lastProcessedBpm s
   \<and> lastProcessedPitch (toggleMute_v1 track s) = lastProcessedPitch s
   \<and> bpm (toggleMute_v1 track s) = bpm s \<and> pitchSemitones (toggleMute_v1 track s) = pitchSemitones s
   \<and> nextRef (toggleMute_v1 track s) = Suc (nextRef s)"
  by (simp add: toggleMute_v1_def Let_def renders_def)

lemma toggleMute_v1_heap:
  assumes "allocated s"
  shows "allocated (toggleMute_v1 track s)
   \<and> heap (toggleMute_v1 track s) (tracks (toggleMute_v1 track s) track)
       = (heap s (tracks s track))\<lparr> muted := \<not> muted (heap s (tracks s track)) \<rparr>
   \<and> (\<forall>t. t \<noteq> track \<longrightarrow>
         heap (toggleMute_v1 track s) (tracks (toggleMute_v1 track s) t) = heap s (tracks s t))"
proof -
  have lt: "tracks s t \<noteq> nextRef s" for t
    using assms by (metis allocated_def less_irrefl)
  have "allocated (toggleMute_v1 track s)"
    using assms by (auto simp: allocated_def toggleMute_v1_def Let_def less_Suc_eq)
  moreover have "heap (toggleMute_v1 track s) (tracks (toggleMute_v1 track s) track)
       = (heap s (tracks s track))\<lparr> muted := \<not> muted (heap s (tracks s track)) \<rparr>"
    by (simp add: toggleMute_v1_def Let_def)
  moreover have "heap (toggleMute_v1 track s) (tracks (toggleMute_v1 track s) t) = heap s (tracks s t)"
    if "t \<noteq> track" for t
    using that lt[of t] by (simp add: toggleMute_v1_def Let_def)
  ultimately show ?thesis by blast
qed

lemma allocated_handleStop: "allocated (handleStop s) = allocated s"
  using handleStop_frame[of s] by (simp add: allocated_def)

lemma toggleMute_heap:
  assumes "allocated s"
  shows "allocated (toggleMute track s)
   \<and> heap (toggleMute track s) (tracks (toggleMute track s) track)
       = (heap s (tracks s track))\<lparr> muted := \<not> muted (heap s (tracks s track)) \<rparr>
   \<and> (\<forall>t. t \<noteq> track \<longrightarrow>
         heap (toggleMute track s) (tracks (toggleMute track s) t) = heap s (tracks s t))"
proof (cases "isPlaying s")
  case True
  have a: "allocated (handleStop s)" using assms by (simp add: allocated_handleStop)
  show ?thesis
    using toggleMute_v1_heap[OF a, of track] handleStop_frame[of s] True
    by (simp add: toggleMute_eq)
next
  case False
  then show ?thesis using toggleMute_v1_heap[OF assms, of track] by (simp add: toggleMute_eq)
qed

lemma toggleMute_renders:
  "renders (toggleMute track s) = renders s
   \<and> lastProcessedBpm (toggleMute track s) = lastProcessedBpm s
   \<and> lastProcessedPitch (toggleMute track s) = lastProcessedPitch s
   \<and> bpm (toggleMute track s) = bpm s \<and> pitchSemitones (toggleMute track s) = pitchSemitones s"
  using toggleMute_v1_frame[of track s] toggleMute_v1_frame[of track "handleStop s"]
    handleStop_frame[of s]
  by (simp add: toggleMute_eq)

lemma needsProcessing_cong:
  "lastProcessedBpm a = lastProcessedBpm b \<Longrightarrow> lastProcessedPitch a = lastProcessedPitch b
   \<Longrightarrow> bpm a = bpm b \<Longrightarrow> pitchSemitones a = pitchSemitones b
   \<Longrightarrow> needsProcessing a = needsProcessing b"
  by (simp add: needsProcessing_def split: option.splits)

lemma toggles_keep_buffers:
  assumes "allocated s"
  shows "allocated (fold toggleMute ts s)
   \<and> (\<forall>t. processedBuffer (heap (fold toggleMute ts s) (tracks (fold toggleMute ts s) t))
            = processedBuffer (heap s (tracks s t))
         \<and> buffer (heap (fold toggleMute ts s) (tracks (fold toggleMute ts s) t))
            = buffer (heap s (tracks s t)))
   \<and> renders (fold toggleMute ts s) = renders s
   \<and> needsProcessing (fold toggleMute ts s) = needsProcessing s"
  using assms
proof (induction ts arbitrary: s)
  case Nil
  then show ?case by simp
next
  case (Cons x ts)
  note h = toggleMute_heap[OF Cons.prems, of x]
  then have a: "allocated (toggleMute x s)" by blast
  have b: "processedBuffer (heap (toggleMute x s) (tracks (toggleMute x s) t))
            = processedBuffer (heap s (tracks s t))
         \<and> buffer (heap (toggleMute x s) (tracks (toggleMute x s) t))
            = buffer (heap s (tracks s t))" for t
    using h by (cases "t = x") simp_all
  have n: "needsProcessing (toggleMute x s) = needsProcessing s"
    using toggleMute_renders[of x s] by (intro needsProcessing_cong) simp_all
  from Cons.IH[OF a] b n toggleMute_renders[of x s] show ?case by simp
qed

lemma toggles_v1_keep_buffers:
  assumes "allocated s"
  shows "allocated (fold toggleMute_v1 ts s)
   \<and> (\<forall>t. processedBuffer (heap (fold toggleMute_v1 ts s) (tracks (fold toggleMute_v1 ts s) t))
            = processedBuffer (heap s (tracks s t))
         \<and> buffer (heap (fold toggleMute_v1 ts s) (tracks (fold toggleMute_v1 ts s) t))
            = buffer (heap s (tracks s t)))
   \<and> renders (fold toggleMute_v1 ts s) = renders s"
  using assms
proof (induction ts arbitrary: s)
  case Nil
  then show ?case by simp
next
  case (Cons x ts)
  note h = toggleMute_v1_heap[OF Cons.prems, of x]
  then have a: "allocated (toggleMute_v1 x s)" by blast
  have b: "processedBuffer (heap (toggleMute_v1 x s) (tracks (toggleMute_v1 x s) t))
            = processedBuffer (heap s (tracks s t))
         \<and> buffer (heap (toggleMute_v1 x s) (tracks (toggleMute_v1 x s) t))
            = buffer (heap s (tracks s t))" for t
    using h by (cases "t = x") simp_all
  from Cons.IH[OF a] b toggleMute_v1_frame[of x s] show ?case by simp
qed

lemma rendered_heap_cong:
  "heap a = heap b \<Longrightarrow> rendered eng tr pr nt a = rendered eng tr pr nt b"
  by (simp add: rendered_def fun_eq_iff)

lemma loaded_heap_cong:
  "heap a = heap b \<Longrightarrow> loaded nt a = loaded nt b"
  by (simp add: loaded_def fun_eq_iff)

lemma inj_on_tracks: "inj nt \<Longrightarrow> inj_on nt (set trackNames)"
  by (metis inj_on_subset subset_UNIV)

lemma processAllTracks_Inl:
  assumes "processAllTracks eng s = Inl (e, s')"
  shows "renderStems eng (tempoRatio s) (pitchRatio s) (tracks s) trackNames
           (s\<lparr> isProcessing := True \<rparr>) = Inl (e, s')"
  using assms by (simp add: processAllTracks_def split: sum.splits)

lemma processAllTracks_Inr:
  assumes "processAllTracks eng s = Inr s'"
  shows "\<exists>s1. renderStems eng (tempoRatio s) (pitchRatio s) (tracks s) trackNames
           (s\<lparr> isProcessing := True \<rparr>) = Inr s1
     \<and> s' = s1\<lparr> tracks := tracks s, lastProcessedBpm := Some (bpm s),
                   lastProcessedPitch := pitchSemitones s, isProcessing := False \<rparr>"
  using assms by (auto simp add: processAllTracks_def split: sum.splits)

lemma processAllTracks_frame:
  "tracks (final (processAllTracks eng s)) = tracks s
   \<and> isPlaying (final (processAllTracks eng s)) = isPlaying s
   \<and> sources (final (processAllTracks eng s)) = sources s
   \<and> live (final (processAllTracks eng s)) = live s
   \<and> bpm (final (processAllTracks eng s)) = bpm s
   \<and> baseBpm (final (processAllTracks eng s)) = baseBpm s
   \<and> pitchSemitones (final (processAllTracks eng s)) = pitchSemitones s
   \<and> nextRef (final (processAllTracks eng s)) = nextRef s
   \<and> nextNode (final (processAllTracks eng s)) = nextNode s
   \<and> currentTime (final (processAllTracks eng s)) = currentTime s
   \<and> clockStep (final (processAllTracks eng s)) = clockStep s
   \<and> selectedSong (final (processAllTracks eng s)) = selectedSong s
   \<and> isLoading (final (processAllTracks eng s)) = isLoading s
   \<and> (\<forall>r. buffer (heap (final (processAllTracks eng s)) r) = buffer (heap s r)
          \<and> muted (heap (final (processAllTracks eng s)) r) = muted (heap s r))"
proof (cases "processAllTracks eng s")
  case (Inl x)
  obtain e s' where x: "x = (e, s')" by (cases x)
  have "final (renderStems eng (tempoRatio s) (pitchRatio s) (tracks s) trackNames
           (s\<lparr> isProcessing := True \<rparr>)) = s'"
    using processAllTracks_Inl[OF Inl[unfolded x]] by simp
  from renderStems_frame[OF this] show ?thesis using Inl x by simp
next
  case (Inr s')
  from processAllTracks_Inr[OF Inr] obtain s1 where
    s1: "renderStems eng (tempoRatio s) (pitchRatio s) (tracks s) trackNames
           (s\<lparr> isProcessing := True \<rparr>) = Inr s1"
      "s' = s1\<lparr> tracks := tracks s, lastProcessedBpm := Some (bpm s),
                   lastProcessedPitch := pitchSemitones s, isProcessing := False \<rparr>"
    by blast
  have "final (renderStems eng (tempoRatio s) (pitchRatio s) (tracks s) trackNames
           (s\<lparr> isProcessing := True \<rparr>)) = s1"
    using s1(1) by simp
  from renderStems_frame[OF this] show ?thesis using Inr s1(2) by simp
qed

lemma handlePlayClick_playing: "isPlaying s \<Longrightarrow> handlePlayClick eng s = Inr (handleStop s)"
  by (simp add: handlePlayClick_def)

lemma handlePlayClick_clean:
  "\<not> isPlaying s \<Longrightarrow> \<not> needsProcessing s \<Longrightarrow> handlePlayClick eng s = Inr (handlePlay s s)"
  by (simp add: handlePlayClick_def)

lemma handlePlayClick_dirty:
  "\<not> isPlaying s \<Longrightarrow> needsProcessing s \<Longrightarrow>
     handlePlayClick eng s =
       (case processAllTracks eng s of Inl x \<Rightarrow> Inl x | Inr s' \<Rightarrow> Inr (handlePlay s s'))"
  by (simp add: handlePlayClick_def)

lemma renderStems_renders:
  "\<exists>xs. renders (final (renderStems eng tr pr nt ts s)) = renders s @ xs
        \<and> ((\<exists>t \<in> set ts. loaded nt s t) \<longrightarrow> xs \<noteq> [])"
proof (induction ts arbitrary: s)
  case Nil
  then show ?case by simp
next
  case (Cons t ts)
  show ?case
  proof (cases "buffer (heap s (nt t))")
    case None
    then have "\<not> loaded nt s t" by (simp add: loaded_def)
    with Cons.IH[of s] None show ?thesis by auto
  next
    case (Some ob)
    show ?thesis
    proof (cases "startRendering eng t ob tr pr")
      case (Inl e)
      with Some show ?thesis by (simp add: renders_def)
    next
      case (Inr rb)
      define s1 where "s1 = s\<lparr> heap := (heap s)(nt t := (heap s (nt t))\<lparr> processedBuffer := Some rb \<rparr>),
                     trace := trace s @ [Render t tr pr] \<rparr>"
      have e: "renderStems eng tr pr nt (t # ts) s = renderStems eng tr pr nt ts s1"
        using Some Inr by (simp add: s1_def)
      from Cons.IH[of s1] obtain xs where
        "renders (final (renderStems eng tr pr nt ts s1)) = renders s1 @ xs" by blast
      moreover have "renders s1 = renders s @ [Render t tr pr]" by (simp add: s1_def renders_def)
      ultimately have "renders (final (renderStems eng tr pr nt (t # ts) s))
          = renders s @ (Render t tr pr # xs)"
        unfolding e by simp
      then show ?thesis by blast
    qed
  qed
qed

lemma processAllTracks_renders:
  "\<exists>xs. renders (final (processAllTracks eng s)) = renders s @ xs
        \<and> ((\<exists>t. loaded (tracks s) s t) \<longrightarrow> xs \<noteq> [])"
proof -
  let ?s0 = "s\<lparr> isProcessing := True \<rparr>"
  let ?r = "renderStems eng (tempoRatio s) (pitchRatio s) (tracks s) trackNames ?s0"
  have "renders (final (processAllTracks eng s)) = renders (final ?r)"
    by (cases ?r) (auto simp: processAllTracks_def renders_def)
  moreover have "renders ?s0 = renders s" by (simp add: renders_def)
  moreover have "loaded (tracks s) ?s0 = loaded (tracks s) s"
    by (rule loaded_heap_cong) simp
  ultimately show ?thesis
    using renderStems_renders[of eng "tempoRatio s" "pitchRatio s" "tracks s" trackNames ?s0]
    by (simp add: set_trackNames)
qed

lemma handlePlayClick_final_dirty:
  assumes "\<not> isPlaying s" "needsProcessing s"
  shows "renders (final (handlePlayClick eng s)) = renders (final (processAllTracks eng s))"
proof (cases "processAllTracks eng s")
  case (Inl x)
  then show ?thesis using assms by (simp add: handlePlayClick_dirty)
next
  case (Inr s')
  then show ?thesis using assms handlePlay_frame[of s s'] by (simp add: handlePlayClick_dirty)
qed


lemma startRendering_length:
  "startRendering eng t originalBuffer tr pr = Inr renderedBuffer \<Longrightarrow>
     length_frames renderedBuffer = length_frames originalBuffer
     \<and> numberOfChannels renderedBuffer = numberOfChannels originalBuffer
     \<and> sampleRate renderedBuffer = sampleRate originalBuffer"
  by (auto simp: startRendering_def split: sum.splits)

lemma oneSession_cong:
  "live a = live b \<Longrightarrow> sources a = sources b \<Longrightarrow> isPlaying a = isPlaying b
     \<Longrightarrow> oneSession a = oneSession b"
  by (simp add: oneSession_def)

lemma oneSession_handleStop: "oneSession s \<Longrightarrow> oneSession (handleStop s)"
proof -
  assume o: "oneSession s"
  then have "live s = sources s" by (simp add: oneSession_def)
  then have "live (handleStop s) = []"
    using handleStop_frame[of s] by (simp add: filter_empty_conv)
  then show ?thesis using handleStop_frame[of s] by (simp add: oneSession_def)
qed

lemma oneSession_handlePlay:
  assumes "oneSession s" "isPlaying c = isPlaying s"
  shows "oneSession (handlePlay c s)"
proof (cases "isPlaying c")
  case True
  then show ?thesis using assms by (simp add: handlePlay_guard)
next
  case False
  then have e: "live s = []" using assms by (auto simp: oneSession_def)
  note st = handlePlay_started[OF False, of s]
  have d: "distinct (map srcTrack (sources (handlePlay c s)))"
    using st distinct_trackNames by simp
  show ?thesis using st e d by (simp add: oneSession_def)
qed

lemma selectSong_Inl:
  assumes "selectSong decode song s = Inl (e, s')"
  shows "live s' = live s \<and> sources s' = sources s \<and> isPlaying s' = isPlaying s
     \<and> selectedSong s' = Some song \<and> baseBpm s' = baseBpm (songEffect song s)"
proof -
  let ?s0 = "(songEffect song s)\<lparr> isLoading := True \<rparr>"
  have "loadStems decode INITIAL_TRACKS trackNames ?s0 = Inl (e, s')"
    using assms by (auto simp: selectSong_def loadBuffers_def split: sum.splits)
  then have "final (loadStems decode INITIAL_TRACKS trackNames ?s0) = s'" by simp
  from loadStems_frame[OF this] songEffect_frame[of song s] show ?thesis by simp
qed

lemma oneSession_selectSong:
  assumes "oneSession s"
  shows "oneSession (final (selectSong decode song s))"
proof (cases "selectSong decode song s")
  case (Inl x)
  obtain e s' where x: "x = (e, s')" by (cases x)
  have "oneSession s' = oneSession s"
    using selectSong_Inl[OF Inl[unfolded x]] by (intro oneSession_cong) simp_all
  then show ?thesis using assms Inl x by simp
next
  case (Inr s')
  from selectSong_Inr[OF Inr] obtain s1 where
    s1: "s' = handlePlay s s1" "isPlaying s1 = isPlaying s" "sources s1 = sources s"
      "live s1 = live s"
    by blast
  have "oneSession s1 = oneSession s" using s1 by (intro oneSession_cong) simp_all
  then have "oneSession (handlePlay s s1)"
    using assms s1(2) by (intro oneSession_handlePlay) simp_all
  then show ?thesis using Inr s1(1) by simp
qed

lemma oneSession_processAllTracks:
  "oneSession (final (processAllTracks eng s)) = oneSession s"
  using processAllTracks_frame[of eng s] by (intro oneSession_cong) simp_all

lemma oneSession_handlePlayClick:
  assumes "oneSession s"
  shows "oneSession (final (handlePlayClick eng s))"
proof (cases "isPlaying s")
  case True
  then show ?thesis using assms by (simp add: handlePlayClick_playing oneSession_handleStop)
next
  case np: False
  show ?thesis
  proof (cases "needsProcessing s")
    case False
    then show ?thesis
      using np assms by (simp add: handlePlayClick_clean oneSession_handlePlay)
  next
    case True
    note o = oneSession_processAllTracks[of eng s]
    show ?thesis
    proof (cases "processAllTracks eng s")
      case (Inl x)
      then have "final (handlePlayClick eng s) = final (processAllTracks eng s)"
        using np True by (cases x) (simp add: handlePlayClick_dirty)
      then show ?thesis using o assms by simp
    next
      case (Inr s')
      then have f: "final (handlePlayClick eng s) = handlePlay s s'"
        using np True by (simp add: handlePlayClick_dirty)
      have "oneSession s'" using o assms Inr by simp
      moreover have "isPlaying s = isPlaying s'"
        using processAllTracks_frame[of eng s] Inr by simp
      ultimately show ?thesis unfolding f by (rule oneSession_handlePlay)
    qed
  qed
qed

lemma oneSession_toggleMute_v1: "oneSession (toggleMute_v1 t s) = oneSession s"
  using toggleMute_v1_frame[of t s] by (intro oneSession_cong) simp_all

lemma oneSession_toggleMute: "oneSession s \<Longrightarrow> oneSession (toggleMute t s)"
  by (simp add: toggleMute_eq oneSession_toggleMute_v1 oneSession_handleStop)

lemma oneSession_bpm [simp]: "oneSession (s\<lparr> bpm := v \<rparr>) = oneSession s"
  by (simp add: oneSession_def)

lemma oneSession_pitch [simp]: "oneSession (s\<lparr> pitchSemitones := v \<rparr>) = oneSession s"
  by (simp add: oneSession_def)

lemma processAllTracks_v1_frame:
  "isPlaying (final (processAllTracks_v1 eng s)) = isPlaying s
   \<and> sources (final (processAllTracks_v1 eng s)) = sources s
   \<and> live (final (processAllTracks_v1 eng s)) = live s"
proof -
  let ?r = "renderStems eng (tempoRatio_v1 s) (pitchRatio s) (tracks s) trackNames
              (s\<lparr> isProcessing := True \<rparr>)"
  obtain s1 where s1: "final ?r = s1" by simp
  note fr = renderStems_frame[OF s1]
  show ?thesis
  proof (cases ?r)
    case (Inl x)
    then show ?thesis using fr s1 by (cases x) (simp add: processAllTracks_v1_def)
  next
    case (Inr s')
    then show ?thesis using fr s1 by (simp add: processAllTracks_v1_def)
  qed
qed

lemma selectSong_v1_frame:
  "isPlaying (final (selectSong_v1 decode song s)) = isPlaying s
   \<and> sources (final (selectSong_v1 decode song s)) = sources s
   \<and> live (final (selectSong_v1 decode song s)) = live s"
proof -
  define s0 where "s0 = (if selectedSong s = Some song then s
        else s\<lparr> selectedSong := Some song, bpm := tempo song \<rparr>)\<lparr> isLoading := True \<rparr>"
  have s0: "isPlaying s0 = isPlaying s" "sources s0 = sources s" "live s0 = live s"
    by (simp_all add: s0_def)
  let ?r = "loadStems decode INITIAL_TRACKS trackNames s0"
  obtain s1 where s1: "final ?r = s1" by simp
  note fr = loadStems_frame[OF s1]
  have e: "selectSong_v1 decode song s
      = (case ?r of Inl x \<Rightarrow> Inl x
         | Inr s' \<Rightarrow> Inr (s'\<lparr> tracks := INITIAL_TRACKS, isLoading := False \<rparr>))"
    by (simp add: selectSong_v1_def loadBuffers_v1_def s0_def)
  show ?thesis
  proof (cases ?r)
    case (Inl x)
    then show ?thesis using fr s1 s0 unfolding e by (cases x) simp
  next
    case (Inr s')
    then show ?thesis using fr s1 s0 unfolding e by simp
  qed
qed

lemma handlePlay_v3_restart:
  assumes "players v = Some ps"
  shows "\<exists>ps'. players (handlePlay_v3 v) = Some ps' \<and> (\<forall>t. sounding (ps' t) = 1)
     \<and> trace_v3 (handlePlay_v3 v)
         = trace_v3 v @ map PlayerStop trackNames @ map PlayerStart trackNames"
proof -
  have "sounding ((the (players (handlePlay_v3 v))) t) = 1" for t
    using assms
    by (cases t) (simp_all add: handlePlay_v3_def stopAll_def trackNames_def playerStop_def
        playerStart_def)
  moreover have "\<exists>ps'. players (handlePlay_v3 v) = Some ps'"
    using assms by (simp add: handlePlay_v3_def split: prod.splits)
  moreover have "trace_v3 (handlePlay_v3 v)
         = trace_v3 v @ map PlayerStop trackNames @ map PlayerStart trackNames"
    using assms
    by (simp add: handlePlay_v3_def stopAll_def trackNames_def playerStop_def playerStart_def)
  ultimately show ?thesis by auto
qed

lemma baseIsSongTempo_cong:
  "selectedSong a = selectedSong b \<Longrightarrow> baseBpm a = baseBpm b
     \<Longrightarrow> baseIsSongTempo a = baseIsSongTempo b"
  by (simp add: baseIsSongTempo_def)

lemma baseIsSongTempo_songEffect:
  "baseIsSongTempo s \<Longrightarrow> baseBpm (songEffect song s) = tempo song"
  by (simp add: baseIsSongTempo_def songEffect_def)

lemma baseIsSongTempo_selectSong:
  assumes "baseIsSongTempo s"
  shows "baseIsSongTempo (final (selectSong decode song s))"
proof (cases "selectSong decode song s")
  case (Inl x)
  obtain e s' where x: "x = (e, s')" by (cases x)
  from selectSong_Inl[OF Inl[unfolded x]] baseIsSongTempo_songEffect[OF assms, of song]
  show ?thesis using Inl x by (simp add: baseIsSongTempo_def)
next
  case (Inr s')
  from selectSong_Inr[OF Inr] obtain s1 where
    s1: "s' = handlePlay s s1" "baseBpm s1 = baseBpm (songEffect song s)"
      "selectedSong s1 = Some song"
    by blast
  then show ?thesis
    using handlePlay_frame[of s s1] baseIsSongTempo_songEffect[OF assms, of song] Inr
    by (simp add: baseIsSongTempo_def)
qed

lemma baseIsSongTempo_handlePlayClick:
  "baseIsSongTempo (final (handlePlayClick eng s)) = baseIsSongTempo s"
proof (cases "isPlaying s")
  case True
  then show ?thesis
    using handleStop_frame[of s]
    by (simp add: handlePlayClick_playing baseIsSongTempo_def)
next
  case np: False
  show ?thesis
  proof (cases "needsProcessing s")
    case False
    then show ?thesis
      using np handlePlay_frame[of s s] by (simp add: handlePlayClick_clean baseIsSongTempo_def)
  next
    case True
    note p = processAllTracks_frame[of eng s]
    show ?thesis
    proof (cases "processAllTracks eng s")
      case (Inl x)
      then have "final (handlePlayClick eng s) = final (processAllTracks eng s)"
        using np True by (cases x) (simp add: handlePlayClick_dirty)
      then show ?thesis using p by (simp add: baseIsSongTempo_def)
    next
      case (Inr s')
      then have f: "final (handlePlayClick eng s) = handlePlay s s'"
        using np True by (simp add: handlePlayClick_dirty)
      show ?thesis unfolding f using p Inr handlePlay_frame[of s s']
        by (simp add: baseIsSongTempo_def)
    qed
  qed
qed

lemma render_pass_outcome:
  assumes "inj (tracks s)"
  shows "(processAllTracks eng s = Inl (e, s') \<longrightarrow>
            lastProcessedBpm s' = lastProcessedBpm s \<and> lastProcessedPitch s' = lastProcessedPitch s
            \<and> tracks s' = tracks s
            \<and> (\<exists>ts1 t ts2. trackNames = ts1 @ t # ts2
                  \<and> rendered eng (tempoRatio s) (pitchRatio s) (tracks s) s t = Some (Inl e)
                  \<and> (\<forall>u \<in> set (t # ts2). heap s' (tracks s u) = heap s (tracks s u))))
     \<and> (processAllTracks eng s = Inr s'' \<longrightarrow>
            lastProcessedBpm s'' = Some (bpm s) \<and> lastProcessedPitch s'' = pitchSemitones s
            \<and> tracks s'' = tracks s
            \<and> (\<forall>u. case rendered eng (tempoRatio s) (pitchRatio s) (tracks s) s u of
                     None \<Rightarrow> heap s'' (tracks s u) = heap s (tracks s u)
                   | Some r \<Rightarrow> (\<exists>rb. r = Inr rb \<and> processedBuffer (heap s'' (tracks s u)) = Some rb)))
     \<and> (\<forall>r. buffer (heap (final (processAllTracks eng s)) r) = buffer (heap s r)
            \<and> muted (heap (final (processAllTracks eng s)) r) = muted (heap s r))"
proof -
  let ?s0 = "s\<lparr> isProcessing := True \<rparr>"
  have rc: "rendered eng (tempoRatio s) (pitchRatio s) (tracks s) ?s0
          = rendered eng (tempoRatio s) (pitchRatio s) (tracks s) s"
    by (rule rendered_heap_cong) simp
  note io = inj_on_tracks[OF assms]
  have a: "lastProcessedBpm s' = lastProcessedBpm s \<and> lastProcessedPitch s' = lastProcessedPitch s
            \<and> tracks s' = tracks s
            \<and> (\<exists>ts1 t ts2. trackNames = ts1 @ t # ts2
                  \<and> rendered eng (tempoRatio s) (pitchRatio s) (tracks s) s t = Some (Inl e)
                  \<and> (\<forall>u \<in> set (t # ts2). heap s' (tracks s u) = heap s (tracks s u)))"
    if f: "processAllTracks eng s = Inl (e, s')"
  proof -
    note r = processAllTracks_Inl[OF f]
    have "final (renderStems eng (tempoRatio s) (pitchRatio s) (tracks s) trackNames ?s0) = s'"
      using r by simp
    note fr = renderStems_frame[OF this]
    from renderStems_Inl[OF distinct_trackNames io r, unfolded rc]
    obtain ts1 t ts2 where "trackNames = ts1 @ t # ts2"
      "rendered eng (tempoRatio s) (pitchRatio s) (tracks s) s t = Some (Inl e)"
      "\<forall>u \<in> set (t # ts2). heap s' (tracks s u) = heap ?s0 (tracks s u)"
      by blast
    then have "\<exists>ts1 t ts2. trackNames = ts1 @ t # ts2
                  \<and> rendered eng (tempoRatio s) (pitchRatio s) (tracks s) s t = Some (Inl e)
                  \<and> (\<forall>u \<in> set (t # ts2). heap s' (tracks s u) = heap s (tracks s u))"
      by (intro exI[of _ ts1] exI[of _ t] exI[of _ ts2]) simp
    then show ?thesis using fr by simp
  qed
  have b: "lastProcessedBpm s'' = Some (bpm s) \<and> lastProcessedPitch s'' = pitchSemitones s
            \<and> tracks s'' = tracks s
            \<and> (\<forall>u. case rendered eng (tempoRatio s) (pitchRatio s) (tracks s) s u of
                     None \<Rightarrow> heap s'' (tracks s u) = heap s (tracks s u)
                   | Some r \<Rightarrow> (\<exists>rb. r = Inr rb \<and> processedBuffer (heap s'' (tracks s u)) = Some rb))"
    if f: "processAllTracks eng s = Inr s''"
  proof -
    from processAllTracks_Inr[OF f] obtain s1 where
      s1: "renderStems eng (tempoRatio s) (pitchRatio s) (tracks s) trackNames ?s0 = Inr s1"
        "s'' = s1\<lparr> tracks := tracks s, lastProcessedBpm := Some (bpm s),
                   lastProcessedPitch := pitchSemitones s, isProcessing := False \<rparr>"
      by blast
    have h: "heap s'' = heap s1" "heap ?s0 = heap s" using s1(2) by simp_all
    note ri = renderStems_Inr[OF distinct_trackNames io s1(1), unfolded rc set_trackNames h(2)]
    have "case rendered eng (tempoRatio s) (pitchRatio s) (tracks s) s u of
                     None \<Rightarrow> heap s'' (tracks s u) = heap s (tracks s u)
                   | Some r \<Rightarrow> (\<exists>rb. r = Inr rb \<and> processedBuffer (heap s'' (tracks s u)) = Some rb)"
      for u
      using ri unfolding h(1) by blast
    then show ?thesis using s1(2) by simp
  qed
  from a b processAllTracks_frame[of eng s] show ?thesis by blast
qed

lemma next_start_routing:
  assumes np: "\<not> isPlaying s'"
    and h: "heap s' (tracks s' track) = (heap s (tracks s track))\<lparr> muted := \<not> muted (heap s (tracks s track)) \<rparr>"
  shows "(\<forall>n \<in> set (sources (handlePlay s' s')).
            srcTrack n = track \<longrightarrow> toDestination n = muted (heap s (tracks s track)))
    \<and> (processedBuffer (heap s (tracks s track)) \<noteq> None \<longrightarrow>
          (\<exists>n \<in> set (sources (handlePlay s' s')).
             srcTrack n = track \<and> toDestination n = muted (heap s (tracks s track))))"
proof -
  note st = handlePlay_started[OF np, of s']
  have a: "\<forall>n \<in> set (sources (handlePlay s' s')).
            srcTrack n = track \<longrightarrow> toDestination n = muted (heap s (tracks s track))"
    using st h by auto
  have b: "\<exists>n \<in> set (sources (handlePlay s' s')).
             srcTrack n = track \<and> toDestination n = muted (heap s (tracks s track))"
    if "processedBuffer (heap s (tracks s track)) \<noteq> None"
  proof -
    have "processedBuffer (heap s' (tracks s' track)) \<noteq> None" using that h by simp
    then have "track \<in> set (filter (\<lambda>t. processedBuffer (heap s' (tracks s' t)) \<noteq> None) trackNames)"
      by (simp add: set_trackNames)
    then have "track \<in> set (map srcTrack (sources (handlePlay s' s')))" using st by simp
    then obtain n where "n \<in> set (sources (handlePlay s' s'))" "srcTrack n = track" by auto
    then show ?thesis using a by blast
  qed
  from a b show ?thesis by blast
qed

lemma baseIsSongTempo_init: "baseIsSongTempo App_init"
  by (simp add: baseIsSongTempo_def App_init_def)

lemma baseIsSongTempo_handlers:
  assumes "baseIsSongTempo s"
  shows "baseIsSongTempo (toggleMute t s) \<and> baseIsSongTempo (tempoChange v s)
    \<and> baseIsSongTempo (pitchChange p s) \<and> baseIsSongTempo (handleStop s)
    \<and> baseIsSongTempo (handlePlay c s)"
  using assms handleStop_frame[of s] handlePlay_frame[of c s]
  by (simp add: toggleMute_def Let_def tempoChange_def pitchChange_def baseIsSongTempo_def)

lemma tempoRatio_latest:
  "baseIsSongTempo s \<Longrightarrow> selectedSong s = Some song
     \<Longrightarrow> tempoRatio s = jsDiv (bpm s) (tempo song)"
  by (simp add: baseIsSongTempo_def tempoRatio_def)

lemma handlePlay_nodeIds:
  assumes "\<not> isPlaying c"
  shows "map nodeId (sources (handlePlay c s))
           = [nextNode s ..< nextNode s + length (sources (handlePlay c s))]"
proof -
  obtain ns s' where r: "startSources (currentTime s) (tracks c) trackNames [] s = (ns, s')"
    by (cases "startSources (currentTime s) (tracks c) trackNames [] s")
  then have hp: "handlePlay c s = s'\<lparr> sources := ns, isPlaying := True \<rparr>"
    using assms by (simp add: handlePlay_def)
  from startSources_nodes[OF r] show ?thesis unfolding hp by auto
qed

section \<open>The example states\<close>

lemma loadedState_fields:
  "isPlaying loadedState = False" "tracks loadedState = INITIAL_TRACKS"
  "processedBuffer (heap loadedState (INITIAL_TRACKS t)) = Some (stemBuffer 1000)"
  "buffer (heap loadedState (INITIAL_TRACKS t)) = Some (stemBuffer 1000)"
  "muted (heap loadedState r) = False"
     apply (simp_all add: loadedState_def loadBuffers_v1_def trackNames_def decodeAll_def App_init_v1_def App_init_def)
   apply (cases t; simp)
  apply (cases t; simp)
  done

lemma decodeAll_total: "\<forall>t. \<exists>ab. decodeAll t = Inr ab"
  by (simp add: decodeAll_def)

lemma App_init_fields:
  "isPlaying App_init = False" "tracks App_init = INITIAL_TRACKS" "live App_init = []"
  "sources App_init = []" "trace App_init = []" "currentTime App_init = 0"
  "nextRef App_init = 4" "pitchSemitones App_init = 0" "clockStep App_init = 0"
  "nextNode App_init = 0" "isProcessing App_init = False"
  "muted (heap App_init r) = False"
  by (simp_all add: App_init_def)

lemma playingState_sel: "selectSong decodeAll (songAt 100) App_init = Inr playingState"
proof -
  obtain s' where "selectSong decodeAll (songAt 100) App_init = Inr s'"
    using selectSong_total[OF decodeAll_total] by blast
  then show ?thesis by (simp add: playingState_def)
qed

lemma playingState_fields:
  "isPlaying playingState" "tracks playingState = INITIAL_TRACKS"
  "bpm playingState = 100" "baseBpm playingState = 100" "pitchSemitones playingState = 0"
  "lastProcessedBpm playingState = Some 100" "lastProcessedPitch playingState = 0"
  "nextRef playingState = 4" "isProcessing playingState = False"
  "live playingState = sources playingState"
  "map srcTrack (sources playingState) = [bass, drums, other, vocals]"
  "processedBuffer (heap playingState (INITIAL_TRACKS t)) = Some (stemBuffer 1000)"
  "buffer (heap playingState (INITIAL_TRACKS t)) = Some (stemBuffer 1000)"
  "muted (heap playingState r) = False"
proof -
  from selectSong_Inr[OF playingState_sel] obtain s1 where
    s1: "playingState = handlePlay App_init s1" "tracks s1 = INITIAL_TRACKS"
      "lastProcessedBpm s1 = Some (tempo (songAt 100))" "lastProcessedPitch s1 = 0"
      "live s1 = live App_init" "nextRef s1 = nextRef App_init"
      "bpm s1 = bpm (songEffect (songAt 100) App_init)"
      "baseBpm s1 = baseBpm (songEffect (songAt 100) App_init)"
      "pitchSemitones s1 = pitchSemitones App_init" "isProcessing s1 = isProcessing App_init"
      "\<forall>t. \<exists>ab. decodeAll t = Inr ab \<and> buffer (heap s1 (INITIAL_TRACKS t)) = Some ab
             \<and> processedBuffer (heap s1 (INITIAL_TRACKS t)) = Some ab"
      "\<forall>r. muted (heap s1 r) = muted (heap App_init r)"
    by blast
  have np: "\<not> isPlaying App_init" by (simp add: App_init_fields)
  note st = handlePlay_started[OF np, of s1, folded s1(1)]
  note fr = handlePlay_frame[of App_init s1, folded s1(1)]
  have hb: "buffer (heap s1 (INITIAL_TRACKS t)) = Some (stemBuffer 1000)"
      "processedBuffer (heap s1 (INITIAL_TRACKS t)) = Some (stemBuffer 1000)" for t
    using s1(11) by (auto simp: decodeAll_def)
  show "isPlaying playingState" using st by simp
  show "tracks playingState = INITIAL_TRACKS" using fr s1 by simp
  show "bpm playingState = 100" using fr s1 by (simp add: songEffect_def songAt_def App_init_def)
  show "baseBpm playingState = 100" using fr s1 by (simp add: songEffect_def songAt_def App_init_def)
  show "pitchSemitones playingState = 0" using fr s1 by (simp add: App_init_fields)
  show "lastProcessedBpm playingState = Some 100" using fr s1 by (simp add: songAt_def)
  show "lastProcessedPitch playingState = 0" using fr s1 by simp
  show "nextRef playingState = 4" using fr s1 by (simp add: App_init_fields)
  show "isProcessing playingState = False" using fr s1 by (simp add: App_init_fields)
  show "live playingState = sources playingState" using st s1 by (simp add: App_init_fields)
  show "map srcTrack (sources playingState) = [bass, drums, other, vocals]"
    using st hb by (simp add: App_init_fields trackNames_def)
  show "processedBuffer (heap playingState (INITIAL_TRACKS t)) = Some (stemBuffer 1000)"
    using fr hb by simp
  show "buffer (heap playingState (INITIAL_TRACKS t)) = Some (stemBuffer 1000)"
    using fr hb by simp
  show "muted (heap playingState r) = False" using fr s1 by (simp add: App_init_fields)
qed

lemma allocated_examples: "allocated App_init" "allocated playingState" "allocated loadedState"
proof -
  have i: "INITIAL_TRACKS t < 4" for t by (cases t) simp_all
  show "allocated App_init" using i by (simp add: allocated_def App_init_def)
  show "allocated playingState" using i by (simp add: allocated_def playingState_fields)
  show "allocated loadedState"
    using i by (simp add: allocated_def loadedState_def loadBuffers_v1_def trackNames_def
        decodeAll_def App_init_v1_def App_init_def)
qed

lemma playingState_trace: "renders playingState = []" "sources playingState \<noteq> []"
proof -
  from selectSong_Inr[OF playingState_sel] obtain s1 where
    s1: "playingState = handlePlay App_init s1" "trace s1 = trace App_init"
    by blast
  show "renders playingState = []"
    using handlePlay_frame[of App_init s1, folded s1(1)] s1(2)
    by (simp add: renders_def App_init_fields)
  show "sources playingState \<noteq> []"
    using playingState_fields(11) by auto
qed

lemma playingState_heap:
  "heap playingState (INITIAL_TRACKS t)
     = \<lparr> buffer = Some (stemBuffer 1000), processedBuffer = Some (stemBuffer 1000), muted = False \<rparr>"
  using playingState_fields(12,13)[of t] playingState_fields(14)[of "INITIAL_TRACKS t"]
  by (cases "heap playingState (INITIAL_TRACKS t)") simp

lemmas playingState_heap_at =
  playingState_heap[of bass, simplified] playingState_heap[of drums, simplified]
  playingState_heap[of other, simplified] playingState_heap[of vocals, simplified]


lemma renders_bpm_update: "renders (s\<lparr> bpm := v \<rparr>) = renders s"
  by (simp add: renders_def)

lemma slowedState_fields:
  "isPlaying slowedState = False" "tracks slowedState = INITIAL_TRACKS"
  "heap slowedState = heap playingState" "bpm slowedState = 50" "baseBpm slowedState = 100"
  "pitchSemitones slowedState = 0" "lastProcessedBpm slowedState = Some 100"
  "lastProcessedPitch slowedState = 0" "renders slowedState = []"
  using handleStop_frame[of playingState]
  by (simp_all add: slowedState_def tempoChange_def playingState_fields(1-7) playingState_trace
      renders_bpm_update)

lemma slowedState_dirty: "needsProcessing slowedState"
  by (simp add: needsProcessing_def slowedState_fields)

lemmas slowed_eval =
  processAllTracks_def trackNames_def slowedState_fields playingState_heap_at
  startRendering_def stemBuffer_def engineOk_def tempoRatio_def pitchRatio_def jsDiv_def

lemma selectedState_v1_fields:
  "isPlaying selectedState_v1 = False" "tracks selectedState_v1 = INITIAL_TRACKS"
  "bpm selectedState_v1 = 120" "pitchSemitones selectedState_v1 = 0"
  "selectedSong selectedState_v1 = Some (songAt 120)" "trace selectedState_v1 = []"
  "heap selectedState_v1 (INITIAL_TRACKS t)
     = \<lparr> buffer = Some (stemBuffer 1000), processedBuffer = Some (stemBuffer 1000), muted = False \<rparr>"
        apply (simp_all add: selectedState_v1_def selectSong_v1_def loadBuffers_v1_def trackNames_def
      decodeAll_def App_init_v1_def App_init_def songAt_def)
  apply (cases t; simp)
  done

lemmas selectedState_v1_heap_at =
  selectedState_v1_fields(7)[of bass, simplified] selectedState_v1_fields(7)[of drums, simplified]
  selectedState_v1_fields(7)[of other, simplified] selectedState_v1_fields(7)[of vocals, simplified]

lemma loadedState_heap:
  "heap loadedState (INITIAL_TRACKS t)
     = \<lparr> buffer = Some (stemBuffer 1000), processedBuffer = Some (stemBuffer 1000), muted = False \<rparr>"
  using loadedState_fields(3,4)[of t] loadedState_fields(5)[of "INITIAL_TRACKS t"]
  by (cases "heap loadedState (INITIAL_TRACKS t)") simp

lemmas loadedState_heap_at =
  loadedState_heap[of bass, simplified] loadedState_heap[of drums, simplified]
  loadedState_heap[of other, simplified] loadedState_heap[of vocals, simplified]

lemma loadedState_more:
  "trace loadedState = []" "bpm loadedState = 95" "pitchSemitones loadedState = 0"
  "lastProcessedBpm loadedState = None"
  by (simp_all add: loadedState_def loadBuffers_v1_def trackNames_def decodeAll_def
      App_init_v1_def App_init_def BASE_BPM_v1_def)

lemma inj_slowedState: "inj (tracks slowedState)"
  by (simp add: slowedState_fields(2) inj_INITIAL_TRACKS)

lemma slowed_pass_ok: "\<not> isl (processAllTracks engineOk slowedState)"
  by (simp add: slowed_eval)

lemma slowed_click_ok:
  "handlePlayClick engineOk slowedState = Inr (final (handlePlayClick engineOk slowedState))"
proof -
  obtain s' where "processAllTracks engineOk slowedState = Inr s'"
    using slowed_pass_ok by (cases "processAllTracks engineOk slowedState") simp_all
  then show ?thesis
    by (simp add: handlePlayClick_dirty slowedState_fields(1) slowedState_dirty)
qed

lemma stopped_clean:
  "\<not> isPlaying (handleStop playingState)" "\<not> needsProcessing (handleStop playingState)"
  using handleStop_frame[of playingState]
  by (simp_all add: needsProcessing_def playingState_fields(3-7))

lemma oneSession_examples: "oneSession App_init" "oneSession playingState"
proof -
  show i: "oneSession App_init" by (simp add: oneSession_def App_init_def)
  show "oneSession playingState"
    unfolding playingState_def using i by (rule oneSession_selectSong)
qed

lemma playing_v3_players: "players playing_v3 = Some (\<lambda>t. \<lparr> sounding = 1, mute = False \<rparr>)"
  by (simp add: playing_v3_def)

lemma render_pass_outcome_example:
  "inj (tracks slowedState)
   \<and> isl (processAllTracks engineFailsOnVocals slowedState)
   \<and> lastProcessedBpm (final (processAllTracks engineFailsOnVocals slowedState)) = Some 100
   \<and> \<not> isl (processAllTracks engineOk slowedState)
   \<and> lastProcessedBpm (final (processAllTracks engineOk slowedState)) = Some 50"
proof -
  obtain e s' where f: "processAllTracks engineFailsOnVocals slowedState = Inl (e, s')"
    by (simp add: slowed_eval engineFailsOnVocals_def)
  obtain s'' where g: "processAllTracks engineOk slowedState = Inr s''"
    using slowed_pass_ok by (cases "processAllTracks engineOk slowedState") simp_all
  have a: "lastProcessedBpm s' = lastProcessedBpm slowedState"
    using render_pass_outcome[OF inj_slowedState, of engineFailsOnVocals e s'] f by blast
  have b: "lastProcessedBpm s'' = Some (bpm slowedState)"
    using render_pass_outcome[OF inj_slowedState, of engineOk _ _ s''] g by blast
  have fs: "final (processAllTracks engineFailsOnVocals slowedState) = s'"
    "isl (processAllTracks engineFailsOnVocals slowedState)"
    unfolding f by simp_all
  have gs: "final (processAllTracks engineOk slowedState) = s''"
    unfolding g by simp
  show ?thesis
    using fs(2) slowed_pass_ok unfolding fs(1) gs a b
    by (simp add: inj_slowedState slowedState_fields(4,7))
qed

lemma selectedState_v1_audio:
  "live selectedState_v1 = []" "sources selectedState_v1 = []"
  "processedBuffer (heap selectedState_v1 (INITIAL_TRACKS t)) = Some (stemBuffer 1000)"
  using selectedState_v1_fields(7)[of t]
  by (simp_all add: selectedState_v1_def selectSong_v1_def loadBuffers_v1_def trackNames_def
      decodeAll_def App_init_v1_def App_init_def)

section \<open>The claims\<close>



text \<open>
  C10 (amended). In the latest prototype a successful load seeds the processing
  state with the song's tempo and pitch 0 and then runs \<open>handlePlay\<close>, with the
  \<open>isPlaying\<close> and \<open>tracks\<close> of the render in which the song was selected. When
  nothing was playing at that moment a session begins: every node is started at the
  current time, and every stem whose \<open>TrackState\<close> is still the one of
  \<open>INITIAL_TRACKS\<close> sounds with its newly decoded buffer. When a session was playing,
  \<open>handlePlay\<close> returns at its guard: no node is started and the old session goes on.
\<close>

theorem autoplay_after_load:
  assumes "selectSong decode song s = Inr s'"
  shows "lastProcessedBpm s' = Some (tempo song) \<and> lastProcessedPitch s' = 0
    \<and> (isPlaying s \<longrightarrow>
          isPlaying s' \<and> sources s' = sources s \<and> live s' = live s \<and> trace s' = trace s)
    \<and> (\<not> isPlaying s \<longrightarrow>
          isPlaying s' \<and> live s' = live s @ sources s'
          \<and> (\<forall>n \<in> set (sources s'). startTime n = currentTime s)
          \<and> (\<forall>t. tracks s t = INITIAL_TRACKS t \<longrightarrow>
                (\<exists>n \<in> set (sources s'). srcTrack n = t \<and> decode t = Inr (srcBuffer n))))"
proof -
  from selectSong_Inr[OF assms] obtain s1 where
    s1: "s' = handlePlay s s1" "lastProcessedBpm s1 = Some (tempo song)" "lastProcessedPitch s1 = 0"
      "isPlaying s1 = isPlaying s" "sources s1 = sources s" "live s1 = live s" "trace s1 = trace s"
      "currentTime s1 = currentTime s"
      "\<forall>t. \<exists>ab. decode t = Inr ab \<and> buffer (heap s1 (INITIAL_TRACKS t)) = Some ab
             \<and> processedBuffer (heap s1 (INITIAL_TRACKS t)) = Some ab"
    by blast
  note fr = handlePlay_frame[of s s1, folded s1(1)]
  have a: "lastProcessedBpm s' = Some (tempo song) \<and> lastProcessedPitch s' = 0"
    using fr s1 by simp
  have b: "isPlaying s' \<and> sources s' = sources s \<and> live s' = live s \<and> trace s' = trace s"
    if "isPlaying s"
    using that s1 by (simp add: handlePlay_guard)
  have c: "isPlaying s' \<and> live s' = live s @ sources s'
          \<and> (\<forall>n \<in> set (sources s'). startTime n = currentTime s)
          \<and> (\<forall>t. tracks s t = INITIAL_TRACKS t \<longrightarrow>
                (\<exists>n \<in> set (sources s'). srcTrack n = t \<and> decode t = Inr (srcBuffer n)))"
    if np: "\<not> isPlaying s"
  proof -
    note st = handlePlay_started[OF np, of s1, folded s1(1)]
    have "\<exists>n \<in> set (sources s'). srcTrack n = t \<and> decode t = Inr (srcBuffer n)"
      if t: "tracks s t = INITIAL_TRACKS t" for t
    proof -
      obtain ab where ab: "decode t = Inr ab" "processedBuffer (heap s1 (INITIAL_TRACKS t)) = Some ab"
        using s1(9) by blast
      then have "t \<in> set (filter (\<lambda>t. processedBuffer (heap s1 (tracks s t)) \<noteq> None) trackNames)"
        using t by (simp add: set_trackNames)
      then have "t \<in> set (map srcTrack (sources s'))" using st by simp
      then obtain n where n: "n \<in> set (sources s')" "srcTrack n = t" by auto
      then have "processedBuffer (heap s1 (tracks s t)) = Some (srcBuffer n)" using st by blast
      then have "srcBuffer n = ab" using ab t by simp
      with n ab show ?thesis by blast
    qed
    then show ?thesis using st s1 by simp
  qed
  from a b c show ?thesis by blast
qed

theorem autoplay_after_load_witness:
  "selectSong decodeAll (songAt 100) App_init = Inr playingState
   \<and> \<not> isPlaying App_init \<and> isPlaying playingState
   \<and> live playingState = live App_init @ sources playingState
   \<and> lastProcessedBpm playingState = Some (tempo (songAt 100))
   \<and> \<not> isl (selectSong decodeAll (songAt 120) playingState)
   \<and> live (final (selectSong decodeAll (songAt 120) playingState)) = live playingState
   \<and> lastProcessedBpm (final (selectSong decodeAll (songAt 120) playingState))
        = Some (tempo (songAt 120))"
proof -
  obtain s' where s': "selectSong decodeAll (songAt 120) playingState = Inr s'"
    using selectSong_total[OF decodeAll_total] by blast
  have a: "live s' = live playingState \<and> lastProcessedBpm s' = Some (tempo (songAt 120))"
    using autoplay_after_load[OF s'] playingState_fields(1) by blast
  have b: "isPlaying playingState \<and> live playingState = live App_init @ sources playingState
     \<and> lastProcessedBpm playingState = Some (tempo (songAt 100))"
    using autoplay_after_load[OF playingState_sel] by (simp add: App_init_fields)
  show ?thesis
    using a b playingState_sel unfolding s' by (simp add: App_init_fields)
qed

text \<open>
  C10 as stated fails: a song selected while the first one is playing loads
  successfully and no playback session begins.
\<close>

theorem autoplay_skipped_when_playing:
  "\<not> isl (selectSong decodeAll (songAt 120) playingState)
   \<and> isPlaying playingState
   \<and> trace (final (selectSong decodeAll (songAt 120) playingState)) = trace playingState
   \<and> sources (final (selectSong decodeAll (songAt 120) playingState)) = sources playingState"
proof -
  obtain s' where s': "selectSong decodeAll (songAt 120) playingState = Inr s'"
    using selectSong_total[OF decodeAll_total] by blast
  from selectSong_Inr[OF s'] obtain s1 where
    s1: "s' = handlePlay playingState s1" "sources s1 = sources playingState"
      "trace s1 = trace playingState"
    by blast
  have "s' = s1" using s1(1) playingState_fields(1) by (simp add: handlePlay_guard)
  then show ?thesis using s' s1 playingState_fields(1) by simp
qed

text \<open>
  C7 (amended). \<open>toggleMute\<close> replaces the \<open>TrackState\<close> of one stem by a copy
  with the \<open>muted\<close> flag flipped: the stem keeps its buffer and its processed
  buffer, and every other stem keeps its \<open>TrackState\<close>. In the latest prototype it
  first stops the session when one is playing (every source is stopped, \<open>sources\<close>
  is emptied, \<open>isPlaying\<close> is cleared) and leaves the audio context alone when
  nothing is playing; in the earlier prototypes on audio buffers it never touches
  the session. In both, the new flag decides the routing at the next start: a stem
  that has a processed buffer gets a node then, and the node goes to the
  destination exactly when the stem was muted before the toggle.
\<close>

theorem toggleMute_session:
  assumes "allocated s"
  shows "heap (toggleMute track s) (tracks (toggleMute track s) track)
           = (heap s (tracks s track))\<lparr> muted := \<not> muted (heap s (tracks s track)) \<rparr>
   \<and> (\<forall>t. t \<noteq> track \<longrightarrow>
         heap (toggleMute track s) (tracks (toggleMute track s) t) = heap s (tracks s t))
   \<and> (\<forall>t. buffer (heap (toggleMute track s) (tracks (toggleMute track s) t))
             = buffer (heap s (tracks s t))
          \<and> processedBuffer (heap (toggleMute track s) (tracks (toggleMute track s) t))
             = processedBuffer (heap s (tracks s t)))
   \<and> (\<not> isPlaying s \<longrightarrow>
         live (toggleMute track s) = live s \<and> sources (toggleMute track s) = sources s
         \<and> trace (toggleMute track s) = trace s \<and> \<not> isPlaying (toggleMute track s))
   \<and> (isPlaying s \<longrightarrow>
         sources (toggleMute track s) = [] \<and> \<not> isPlaying (toggleMute track s)
         \<and> live (toggleMute track s)
             = filter (\<lambda>n. nodeId n \<notin> nodeId ` set (sources s)) (live s))
   \<and> (\<forall>n \<in> set (sources (handlePlay (toggleMute track s) (toggleMute track s))).
         srcTrack n = track \<longrightarrow> toDestination n = muted (heap s (tracks s track)))
   \<and> (processedBuffer (heap s (tracks s track)) \<noteq> None \<longrightarrow>
         (\<exists>n \<in> set (sources (handlePlay (toggleMute track s) (toggleMute track s))).
            srcTrack n = track \<and> toDestination n = muted (heap s (tracks s track))))
   \<and> heap (toggleMute_v1 track s) (tracks (toggleMute_v1 track s) track)
           = (heap s (tracks s track))\<lparr> muted := \<not> muted (heap s (tracks s track)) \<rparr>
   \<and> (\<forall>t. t \<noteq> track \<longrightarrow>
         heap (toggleMute_v1 track s) (tracks (toggleMute_v1 track s) t) = heap s (tracks s t))
   \<and> live (toggleMute_v1 track s) = live s \<and> sources (toggleMute_v1 track s) = sources s
   \<and> isPlaying (toggleMute_v1 track s) = isPlaying s \<and> trace (toggleMute_v1 track s) = trace s
   \<and> (\<not> isPlaying s \<and> processedBuffer (heap s (tracks s track)) \<noteq> None \<longrightarrow>
         (\<exists>n \<in> set (sources (handlePlay (toggleMute_v1 track s) (toggleMute_v1 track s))).
            srcTrack n = track \<and> toDestination n = muted (heap s (tracks s track))))
   \<and> muted (heap (toggleMute track s) (tracks (toggleMute track s) track))
           = (\<not> muted (heap s (tracks s track)))
   \<and> muted (heap (toggleMute_v1 track s) (tracks (toggleMute_v1 track s) track))
           = (\<not> muted (heap s (tracks s track)))"
proof -
  note h = toggleMute_heap[OF assms, of track]
  note h1 = toggleMute_v1_heap[OF assms, of track]
  note f1 = toggleMute_v1_frame[of track s]
  have m: "heap (toggleMute track s) (tracks (toggleMute track s) track)
           = (heap s (tracks s track))\<lparr> muted := \<not> muted (heap s (tracks s track)) \<rparr>"
    using h by simp
  have m1: "heap (toggleMute_v1 track s) (tracks (toggleMute_v1 track s) track)
           = (heap s (tracks s track))\<lparr> muted := \<not> muted (heap s (tracks s track)) \<rparr>"
    using h1 by simp
  have o: "\<forall>t. t \<noteq> track \<longrightarrow>
         heap (toggleMute track s) (tracks (toggleMute track s) t) = heap s (tracks s t)"
    using h by blast
  have o1: "\<forall>t. t \<noteq> track \<longrightarrow>
         heap (toggleMute_v1 track s) (tracks (toggleMute_v1 track s) t) = heap s (tracks s t)"
    using h1 by blast
  have bf: "buffer (heap (toggleMute track s) (tracks (toggleMute track s) t))
             = buffer (heap s (tracks s t))
          \<and> processedBuffer (heap (toggleMute track s) (tracks (toggleMute track s) t))
             = processedBuffer (heap s (tracks s t))" for t
    using m o by (cases "t = track") simp_all
  have a: "live (toggleMute track s) = live s \<and> sources (toggleMute track s) = sources s
         \<and> trace (toggleMute track s) = trace s \<and> \<not> isPlaying (toggleMute track s)"
    if "\<not> isPlaying s"
    using that f1 by (simp add: toggleMute_eq)
  have b: "sources (toggleMute track s) = [] \<and> \<not> isPlaying (toggleMute track s)
         \<and> live (toggleMute track s)
             = filter (\<lambda>n. nodeId n \<notin> nodeId ` set (sources s)) (live s)"
    if "isPlaying s"
    using that toggleMute_v1_frame[of track "handleStop s"] handleStop_frame[of s]
    by (simp add: toggleMute_eq)
  have np: "\<not> isPlaying (toggleMute track s)" using a b by blast
  note r = next_start_routing[OF np m]
  have r1: "\<exists>n \<in> set (sources (handlePlay (toggleMute_v1 track s) (toggleMute_v1 track s))).
            srcTrack n = track \<and> toDestination n = muted (heap s (tracks s track))"
    if "\<not> isPlaying s" "processedBuffer (heap s (tracks s track)) \<noteq> None"
  proof -
    have "\<not> isPlaying (toggleMute_v1 track s)" using that(1) f1 by simp
    from next_start_routing[OF this m1] that(2) show ?thesis by blast
  qed
  have mm: "muted (heap (toggleMute track s) (tracks (toggleMute track s) track))
           = (\<not> muted (heap s (tracks s track)))"
    "muted (heap (toggleMute_v1 track s) (tracks (toggleMute_v1 track s) track))
           = (\<not> muted (heap s (tracks s track)))"
    using m m1 by simp_all
  from m o bf a b r m1 o1 f1 r1 mm show ?thesis by blast
qed

theorem toggleMute_session_witness:
  "allocated playingState \<and> isPlaying playingState
   \<and> sources (toggleMute drums playingState) = [] \<and> \<not> isPlaying (toggleMute drums playingState)
   \<and> muted (heap (toggleMute drums playingState) (tracks (toggleMute drums playingState) drums))
   \<and> allocated loadedState \<and> \<not> isPlaying loadedState
   \<and> live (toggleMute drums loadedState) = live loadedState
   \<and> muted (heap (toggleMute_v1 drums loadedState) (tracks (toggleMute_v1 drums loadedState) drums))
   \<and> heap (toggleMute drums playingState) (tracks (toggleMute drums playingState) drums)
        = \<lparr> buffer = Some (stemBuffer 1000), processedBuffer = Some (stemBuffer 1000), muted = True \<rparr>
   \<and> filter (\<lambda>n. srcTrack n = drums \<and> \<not> toDestination n)
        (sources (handlePlay (toggleMute drums playingState) (toggleMute drums playingState))) \<noteq> []"
proof -
  note w = toggleMute_session[OF allocated_examples(2), of drums]
  note v = toggleMute_session[OF allocated_examples(3), of drums]
  have p: "processedBuffer (heap playingState (tracks playingState drums)) \<noteq> None"
    "muted (heap playingState (tracks playingState drums)) = False"
    "heap playingState (tracks playingState drums)
       = \<lparr> buffer = Some (stemBuffer 1000), processedBuffer = Some (stemBuffer 1000), muted = False \<rparr>"
    using playingState_heap[of drums] by (simp_all add: playingState_fields(2))
  have a: "sources (toggleMute drums playingState) = [] \<and> \<not> isPlaying (toggleMute drums playingState)"
    using w playingState_fields(1) by blast
  have b: "heap (toggleMute drums playingState) (tracks (toggleMute drums playingState) drums)
        = \<lparr> buffer = Some (stemBuffer 1000), processedBuffer = Some (stemBuffer 1000), muted = True \<rparr>"
  proof -
    have "heap (toggleMute drums playingState) (tracks (toggleMute drums playingState) drums)
        = (heap playingState (tracks playingState drums))
            \<lparr> muted := \<not> muted (heap playingState (tracks playingState drums)) \<rparr>"
      using w by blast
    then show ?thesis unfolding p(3) by simp
  qed
  have "\<exists>n \<in> set (sources (handlePlay (toggleMute drums playingState) (toggleMute drums playingState))).
            srcTrack n = drums \<and> toDestination n = muted (heap playingState (tracks playingState drums))"
    using w p(1) by blast
  then have c: "filter (\<lambda>n. srcTrack n = drums \<and> \<not> toDestination n)
        (sources (handlePlay (toggleMute drums playingState) (toggleMute drums playingState))) \<noteq> []"
    unfolding p(2) by (auto simp: filter_empty_conv)
  have d: "live (toggleMute drums loadedState) = live loadedState"
    using v loadedState_fields(1) by blast
  have e: "muted (heap (toggleMute_v1 drums loadedState) (tracks (toggleMute_v1 drums loadedState) drums))"
    using v loadedState_fields(5) by blast
  show ?thesis
    using a b c d e allocated_examples playingState_fields(1) loadedState_fields(1) by simp
qed

text \<open>
  C7 as stated fails in the latest prototype: toggling the mute of a stem while
  the four stems are playing stops all of them.
\<close>

theorem toggleMute_stops_session:
  "isPlaying playingState \<and> live playingState \<noteq> [] \<and> live (toggleMute bass playingState) = []"
proof -
  have "live (toggleMute bass playingState)
          = filter (\<lambda>n. nodeId n \<notin> nodeId ` set (sources playingState)) (live playingState)"
    using handleStop_frame[of playingState] toggleMute_v1_frame[of bass "handleStop playingState"]
      playingState_fields(1)
    by (simp add: toggleMute_eq)
  also have "\<dots> = []" by (simp add: playingState_fields(10) filter_empty_conv)
  finally show ?thesis using playingState_fields(1,10) playingState_trace(2) by simp
qed

text \<open>
  C8. For every sequence of mute toggles on any stems, in the latest prototype
  and in the earlier one, every stem's \<open>processedBuffer\<close> is the buffer it was
  before, no invocation of the transform engine is added to the trace, and the
  dirty check answers as before, so the toggles do not cause a render pass at the
  next play request either.
\<close>

theorem mute_toggles_keep_buffers:
  assumes "allocated s"
  shows "(\<forall>t. processedBuffer (heap (fold toggleMute ts s) (tracks (fold toggleMute ts s) t))
            = processedBuffer (heap s (tracks s t)))
   \<and> renders (fold toggleMute ts s) = renders s
   \<and> needsProcessing (fold toggleMute ts s) = needsProcessing s
   \<and> (\<forall>t. processedBuffer (heap (fold toggleMute_v1 ts s) (tracks (fold toggleMute_v1 ts s) t))
            = processedBuffer (heap s (tracks s t)))
   \<and> renders (fold toggleMute_v1 ts s) = renders s"
  using toggles_keep_buffers[OF assms, of ts] toggles_v1_keep_buffers[OF assms, of ts] by simp

theorem mute_toggles_keep_buffers_witness:
  "allocated playingState
   \<and> processedBuffer (heap (fold toggleMute [bass, vocals, bass] playingState)
        (tracks (fold toggleMute [bass, vocals, bass] playingState) bass)) = Some (stemBuffer 1000)
   \<and> renders (fold toggleMute [bass, vocals, bass] playingState) = []
   \<and> processedBuffer (heap (fold toggleMute_v1 [bass, vocals, bass] playingState)
        (tracks (fold toggleMute_v1 [bass, vocals, bass] playingState) vocals)) = Some (stemBuffer 1000)"
proof -
  note w = mute_toggles_keep_buffers[OF allocated_examples(2), of "[bass, vocals, bass]"]
  have a: "processedBuffer (heap (fold toggleMute [bass, vocals, bass] playingState)
        (tracks (fold toggleMute [bass, vocals, bass] playingState) bass))
      = processedBuffer (heap playingState (tracks playingState bass))"
    using w by blast
  have b: "processedBuffer (heap (fold toggleMute_v1 [bass, vocals, bass] playingState)
        (tracks (fold toggleMute_v1 [bass, vocals, bass] playingState) vocals))
      = processedBuffer (heap playingState (tracks playingState vocals))"
    using w by blast
  have c: "renders (fold toggleMute [bass, vocals, bass] playingState) = renders playingState"
    using w by blast
  show ?thesis
    unfolding a b c
    using playingState_fields(12)[of bass] playingState_fields(12)[of vocals]
    by (simp add: allocated_examples playingState_fields(2) playingState_trace)
qed

text \<open>
  C1 fails on the code. \<open>processAllTracks\<close> fills a copy \<open>newTracks\<close> and hands it
  to \<open>setTracks\<close>, together with the two last-processed values, after its loop; but
  the copy is a spread, so each assignment in the loop already writes to the
  \<open>TrackState\<close> that \<open>tracks\<close> shows. Here the tempo was changed from 100 to 50 and
  play is requested; bass, drums and other render and vocals fails. The pass ends
  in an error with \<open>lastProcessedBpm\<close> still 100 and the buffer of vocals as it
  was, and the \<open>processedBuffer\<close> of drums is the new rendering, where the claim
  has no stem's buffer changed.
\<close>

theorem render_pass_partial:
  "\<not> isPlaying slowedState \<and> lastProcessedBpm slowedState = Some 100 \<and> bpm slowedState = 50
   \<and> isl (handlePlayClick engineFailsOnVocals slowedState)
   \<and> processedBuffer (heap (final (handlePlayClick engineFailsOnVocals slowedState))
         (tracks (final (handlePlayClick engineFailsOnVocals slowedState)) drums))
       \<noteq> processedBuffer (heap slowedState (tracks slowedState drums))
   \<and> processedBuffer (heap (final (handlePlayClick engineFailsOnVocals slowedState))
         (tracks (final (handlePlayClick engineFailsOnVocals slowedState)) vocals))
       = processedBuffer (heap slowedState (tracks slowedState vocals))
   \<and> lastProcessedBpm (final (handlePlayClick engineFailsOnVocals slowedState)) = Some 100"
  by (simp add: handlePlayClick_def slowedState_dirty slowed_eval engineFailsOnVocals_def)

text \<open>
  C3. The dirty check \<open>needsProcessing\<close> is true exactly when the last processed
  tempo is unset, or differs from the requested \<open>bpm\<close>, or the last processed pitch
  differs from the requested \<open>pitchSemitones\<close>. It is a function of the state and
  changes nothing. On a play request (a click while nothing is playing) the render
  pass runs exactly when it is true: when it is false the click is
  \<open>handlePlay\<close> alone, with no engine invocation and the buffers untouched; when it
  is true the click is \<open>processAllTracks\<close> followed by \<open>handlePlay\<close>, and with at
  least one stem loaded the engine is invoked.
\<close>

theorem dirty_check:
  "needsProcessing s
     = (lastProcessedBpm s = None \<or> lastProcessedBpm s \<noteq> Some (bpm s)
        \<or> lastProcessedPitch s \<noteq> pitchSemitones s)
   \<and> (\<not> isPlaying s \<and> \<not> needsProcessing s \<longrightarrow>
         handlePlayClick eng s = Inr (handlePlay s s)
         \<and> renders (final (handlePlayClick eng s)) = renders s
         \<and> heap (final (handlePlayClick eng s)) = heap s)
   \<and> (\<not> isPlaying s \<and> needsProcessing s \<longrightarrow>
         handlePlayClick eng s =
           (case processAllTracks eng s of Inl x \<Rightarrow> Inl x | Inr s' \<Rightarrow> Inr (handlePlay s s'))
         \<and> ((\<exists>t. loaded (tracks s) s t) \<longrightarrow>
               length (renders s) < length (renders (final (handlePlayClick eng s)))))"
proof -
  have a: "needsProcessing s
     = (lastProcessedBpm s = None \<or> lastProcessedBpm s \<noteq> Some (bpm s)
        \<or> lastProcessedPitch s \<noteq> pitchSemitones s)"
    by (auto simp: needsProcessing_def split: option.splits)
  have b: "handlePlayClick eng s = Inr (handlePlay s s)
         \<and> renders (final (handlePlayClick eng s)) = renders s
         \<and> heap (final (handlePlayClick eng s)) = heap s"
    if "\<not> isPlaying s" "\<not> needsProcessing s"
    using that handlePlay_frame[of s s] by (simp add: handlePlayClick_clean)
  have c: "handlePlayClick eng s =
           (case processAllTracks eng s of Inl x \<Rightarrow> Inl x | Inr s' \<Rightarrow> Inr (handlePlay s s'))
         \<and> ((\<exists>t. loaded (tracks s) s t) \<longrightarrow>
               length (renders s) < length (renders (final (handlePlayClick eng s))))"
    if h: "\<not> isPlaying s" "needsProcessing s"
  proof -
    obtain xs where xs: "renders (final (processAllTracks eng s)) = renders s @ xs"
      "(\<exists>t. loaded (tracks s) s t) \<longrightarrow> xs \<noteq> []"
      using processAllTracks_renders[of eng s] by blast
    then have "(\<exists>t. loaded (tracks s) s t) \<longrightarrow>
               length (renders s) < length (renders (final (handlePlayClick eng s)))"
      unfolding handlePlayClick_final_dirty[OF h] by simp
    then show ?thesis using h by (simp add: handlePlayClick_dirty)
  qed
  from a b c show ?thesis by blast
qed

theorem dirty_check_witness:
  "\<not> isPlaying slowedState \<and> needsProcessing slowedState
   \<and> loaded (tracks slowedState) slowedState bass
   \<and> length (renders slowedState) < length (renders (final (handlePlayClick engineOk slowedState)))
   \<and> \<not> isPlaying (handleStop playingState) \<and> \<not> needsProcessing (handleStop playingState)
   \<and> handlePlayClick engineOk (handleStop playingState)
        = Inr (handlePlay (handleStop playingState) (handleStop playingState))"
proof -
  have l: "loaded (tracks slowedState) slowedState bass"
    by (simp add: loaded_def slowedState_fields(2,3) playingState_heap_at)
  have a: "length (renders slowedState) < length (renders (final (handlePlayClick engineOk slowedState)))"
    using dirty_check[of slowedState engineOk] l slowedState_dirty slowedState_fields(1) by blast
  have b: "handlePlayClick engineOk (handleStop playingState)
        = Inr (handlePlay (handleStop playingState) (handleStop playingState))"
    using dirty_check[of "handleStop playingState" engineOk] stopped_clean by blast
  show ?thesis using l a b stopped_clean slowedState_dirty slowedState_fields(1) by simp
qed

text \<open>
  C6 (amended). In the latest prototype the dirty check stands in
  \<open>handlePlayClick\<close>, not in the render pass: after a play request that went through
  (with or without a render pass), the next click stops, and the play request
  after that, with tempo and pitch unchanged, finds the state clean, is
  \<open>handlePlay\<close> alone, invokes the engine for no stem and leaves every buffer as it
  is.
\<close>

theorem second_play_request_renders_nothing:
  assumes "\<not> isPlaying s" "handlePlayClick eng s = Inr s1"
  shows "isPlaying s1 \<and> handlePlayClick eng2 s1 = Inr (handleStop s1)
    \<and> \<not> needsProcessing (handleStop s1)
    \<and> handlePlayClick eng3 (handleStop s1) = Inr (handlePlay (handleStop s1) (handleStop s1))
    \<and> renders (handlePlay (handleStop s1) (handleStop s1)) = renders s1
    \<and> heap (handlePlay (handleStop s1) (handleStop s1)) = heap s1"
proof -
  have s1: "isPlaying s1 \<and> \<not> needsProcessing s1"
  proof (cases "needsProcessing s")
    case True
    then obtain s' where p: "processAllTracks eng s = Inr s'" "s1 = handlePlay s s'"
      using assms by (auto simp: handlePlayClick_dirty split: sum.splits)
    from processAllTracks_Inr[OF p(1)] obtain s0 where
      "s' = s0\<lparr> tracks := tracks s, lastProcessedBpm := Some (bpm s),
                   lastProcessedPitch := pitchSemitones s, isProcessing := False \<rparr>"
      by blast
    then have l: "lastProcessedBpm s' = Some (bpm s)" "lastProcessedPitch s' = pitchSemitones s"
      by simp_all
    have "bpm s' = bpm s" "pitchSemitones s' = pitchSemitones s"
      using processAllTracks_frame[of eng s] p(1) by simp_all
    then have "\<not> needsProcessing s1"
      using l handlePlay_frame[of s s'] p(2) by (simp add: needsProcessing_def)
    then show ?thesis using handlePlay_started[OF assms(1), of s'] p(2) by simp
  next
    case False
    then have "s1 = handlePlay s s" using assms by (simp add: handlePlayClick_clean)
    moreover have "needsProcessing (handlePlay s s) = needsProcessing s"
      using handlePlay_frame[of s s] by (intro needsProcessing_cong) simp_all
    ultimately show ?thesis using False handlePlay_started[OF assms(1), of s] by simp
  qed
  note fs = handleStop_frame[of s1]
  have n: "\<not> needsProcessing (handleStop s1)"
  proof -
    have "needsProcessing (handleStop s1) = needsProcessing s1"
      using fs by (intro needsProcessing_cong) simp_all
    then show ?thesis using s1 by simp
  qed
  have np: "\<not> isPlaying (handleStop s1)" using fs by simp
  have "renders (handlePlay (handleStop s1) (handleStop s1)) = renders s1"
    "heap (handlePlay (handleStop s1) (handleStop s1)) = heap s1"
    using handlePlay_frame[of "handleStop s1" "handleStop s1"] fs by simp_all
  then show ?thesis
    using s1 n np by (simp add: handlePlayClick_playing handlePlayClick_clean)
qed

theorem second_play_request_renders_nothing_witness:
  "\<not> isPlaying slowedState \<and> \<not> isl (handlePlayClick engineOk slowedState)
   \<and> isPlaying (final (handlePlayClick engineOk slowedState))
   \<and> \<not> needsProcessing (handleStop (final (handlePlayClick engineOk slowedState)))
   \<and> renders (handlePlay (handleStop (final (handlePlayClick engineOk slowedState)))
                 (handleStop (final (handlePlayClick engineOk slowedState))))
       = renders (final (handlePlayClick engineOk slowedState))"
proof -
  have np: "\<not> isPlaying slowedState" by (simp add: slowedState_fields(1))
  have i: "\<not> isl (handlePlayClick engineOk slowedState)"
    by (subst slowed_click_ok) simp
  show ?thesis
    using second_play_request_renders_nothing[OF np slowed_click_ok] np i by blast
qed

text \<open>
  C6 as stated fails: \<open>processAllTracks\<close> has no dirty check of its own. In the
  first two prototypes, where the "Apply Tempo/Pitch" button calls it, two passes
  in a row with the same tempo and pitch invoke the engine for the four stems
  twice.
\<close>

theorem apply_twice_renders_twice:
  "\<not> isl (processAllTracks_v1 engineOk loadedState)
   \<and> length (renders (final (processAllTracks_v1 engineOk loadedState))) = 4
   \<and> \<not> isl (processAllTracks_v1 engineOk (final (processAllTracks_v1 engineOk loadedState)))
   \<and> length (renders (final (processAllTracks_v1 engineOk
        (final (processAllTracks_v1 engineOk loadedState))))) = 8"
  by (simp add: processAllTracks_v1_def trackNames_def loadedState_fields(1,2) loadedState_heap_at
      loadedState_more startRendering_def engineOk_def tempoRatio_v1_def pitchRatio_def
      jsDiv_def BASE_BPM_v1_def renders_def)

text \<open>
  C2 fails on the code: the offline context is created with the original
  buffer's length, so the rendered buffer has the original's frame count whatever
  the tempo ratio. Here the ratio is one half and the thousand frames of the bass
  stem stay a thousand, where the claim has about two thousand.
\<close>

theorem frame_count_not_scaled:
  "tempoRatio slowedState = Num (1 / 2)
   \<and> \<not> isl (processAllTracks engineOk slowedState)
   \<and> map_option length_frames (buffer (heap slowedState (tracks slowedState bass))) = Some 1000
   \<and> map_option length_frames
        (processedBuffer (heap (final (processAllTracks engineOk slowedState))
           (tracks (final (processAllTracks engineOk slowedState)) bass))) = Some 1000"
  by (simp add: slowed_eval)

text \<open>
  C9 fails on the first prototype: with a song of tempo 120 selected, and \<open>bpm\<close>
  set to 120 by the effect, the render pass hands the engine the tempo ratio
  120 / 95, the quotient by the constant \<open>BASE_BPM\<close>, where the claim has
  120 / 120. (The pitch ratio is \<open>2 powr (0 / 12) = 1\<close>, as claimed.)
\<close>

theorem tempo_ratio_from_constant_v1:
  "Some (tempo (songAt 120)) = map_option tempo (selectedSong selectedState_v1)
   \<and> bpm selectedState_v1 = 120
   \<and> renders (final (processAllTracks_v1 engineOk selectedState_v1))
       = [Render bass (Num (120 / 95)) 1, Render drums (Num (120 / 95)) 1,
          Render other (Num (120 / 95)) 1, Render vocals (Num (120 / 95)) 1]"
  by (simp add: processAllTracks_v1_def trackNames_def selectedState_v1_fields(1-6)
      selectedState_v1_heap_at startRendering_def engineOk_def tempoRatio_v1_def pitchRatio_def
      jsDiv_def BASE_BPM_v1_def renders_def songAt_def)

text \<open>
  C4 fails on the prototypes that play audio buffers. \<open>handlePlay\<close> never stops
  a session; it drops a start request whose render holds \<open>isPlaying\<close>, and that
  value is set only after the \<open>await\<close> and the loop. Here the first prototype has a
  song loaded and nothing playing, and Play is clicked twice before the component
  renders again: both requests pass the guard, eight nodes sound, two for each
  stem, \<open>sources\<close> remembers the last four only, and Stop leaves the first four
  sounding. The claim has the earlier handles stopped before the new ones begin,
  as the prototype on \<open>Tone.Players\<close> does with \<open>stopAll\<close>.
\<close>

theorem double_start_two_sessions:
  "\<not> isPlaying selectedState_v1 \<and> live selectedState_v1 = []
   \<and> map srcTrack (live (handlePlay selectedState_v1
         (handlePlay selectedState_v1 selectedState_v1)))
       = [bass, drums, other, vocals, bass, drums, other, vocals]
   \<and> map srcTrack (sources (handlePlay selectedState_v1
         (handlePlay selectedState_v1 selectedState_v1)))
       = [bass, drums, other, vocals]
   \<and> map srcTrack (live (handleStop (handlePlay selectedState_v1
         (handlePlay selectedState_v1 selectedState_v1))))
       = [bass, drums, other, vocals]"
proof -
  let ?c = "selectedState_v1"
  let ?x1 = "handlePlay ?c ?c"
  let ?x2 = "handlePlay ?c ?x1"
  have np: "\<not> isPlaying ?c" by (simp add: selectedState_v1_fields(1))
  have ld: "filter (\<lambda>t. processedBuffer (heap ?c (tracks ?c t)) \<noteq> None) trackNames
              = [bass, drums, other, vocals]"
    by (simp add: selectedState_v1_fields(2) selectedState_v1_audio(3) trackNames_def)
  note st1 = handlePlay_started[OF np, of ?c]
  note fr1 = handlePlay_frame[of ?c ?c]
  note st2 = handlePlay_started[OF np, of ?x1]
  have h1: "heap ?x1 = heap ?c" using fr1 by simp
  have t1: "map srcTrack (sources ?x1) = [bass, drums, other, vocals]"
    using st1 ld by simp
  have l1: "live ?x1 = sources ?x1" using st1 by (simp add: selectedState_v1_audio(1))
  have t2: "map srcTrack (sources ?x2) = [bass, drums, other, vocals]"
    using st2 ld unfolding h1 by simp
  have l2: "live ?x2 = sources ?x1 @ sources ?x2" using st2 l1 by simp
  have n1: "length (sources ?x1) = 4" using arg_cong[OF t1, of length] by simp
  have n2: "length (sources ?x2) = 4" using arg_cong[OF t2, of length] by simp
  have i1: "nodeId ` set (sources ?x1) = {nextNode ?c ..< nextNode ?c + 4}"
    using arg_cong[OF handlePlay_nodeIds[OF np, of ?c], of set] n1 by simp
  have nn: "nextNode ?x1 = nextNode ?c + 4" using st1 n1 by simp
  have i2: "nodeId ` set (sources ?x2) = {nextNode ?c + 4 ..< nextNode ?c + 8}"
    using arg_cong[OF handlePlay_nodeIds[OF np, of ?x1], of set] n2 nn by (simp add: add.commute)
  have k1: "filter (\<lambda>n. nodeId n \<notin> nodeId ` set (sources ?x2)) (sources ?x1) = sources ?x1"
  proof (intro filter_True ballI)
    fix n assume "n \<in> set (sources ?x1)"
    then have "nodeId n \<in> {nextNode ?c ..< nextNode ?c + 4}" using i1 by blast
    then show "nodeId n \<notin> nodeId ` set (sources ?x2)" unfolding i2 by simp
  qed
  have k2: "filter (\<lambda>n. nodeId n \<notin> nodeId ` set (sources ?x2)) (sources ?x2) = []"
    by (simp add: filter_empty_conv)
  have "live (handleStop ?x2) = sources ?x1"
    using handleStop_frame[of ?x2] k1 k2 unfolding l2 by simp
  then show ?thesis using np t1 t2 l2 by (simp add: selectedState_v1_audio(1))
qed

end
